theory Spec2Isabelle
  imports Main "HOL-Library.Sublist" "HOL-Library.AList"
begin

section \<open>CMS hospital CSV downloader: a shallow embedding of \<open>src/main.py\<close>\<close>

text \<open>
  The program is one Python module: a header normaliser (\<open>snake_case\<close>), a metadata
  store (\<open>load_metadata\<close>, \<open>save_metadata\<close>), a catalog filter
  (\<open>fetch_hospital_datasets\<close>), a per-dataset worker (\<open>download_and_process\<close>)
  and the orchestrator (\<open>main\<close>). Each becomes a HOL function of the same name.
  Exceptions are values (\<open>Inl\<close> of a sum), the disk is an explicit record that every
  operation returns updated, and what the network and the libraries answer is read from
  an environment record.
\<close>

subsection \<open>Python strings\<close>

text \<open>
  A Python \<open>str\<close> is a sequence of Unicode code points, so it is a list of naturals
  here, not a list of 8-bit \<open>char\<close>s. \<open>ustr\<close> writes an ASCII literal.
\<close>

type_synonym pystr = "nat list"

definition ustr :: "string \<Rightarrow> pystr" where
  "ustr cs = map of_char cs"

text \<open>
  The code points for which \<open>str.isspace\<close> holds; \<open>str.strip()\<close> and the class
  \<open>\s\<close> of \<open>re\<close> on a \<open>str\<close> pattern both use this set.
\<close>

definition is_space :: "nat \<Rightarrow> bool" where
  "is_space c \<longleftrightarrow>
     (9 \<le> c \<and> c \<le> 13) \<or> (28 \<le> c \<and> c \<le> 32) \<or> c = 133 \<or> c = 160 \<or> c = 5760 \<or>
     (8192 \<le> c \<and> c \<le> 8202) \<or> c = 8232 \<or> c = 8233 \<or> c = 8239 \<or> c = 8287 \<or>
     c = 12288"

definition is_underscore :: "nat \<Rightarrow> bool" where
  "is_underscore c \<longleftrightarrow> c = 95"

text \<open>\<open>[a-z]\<close> and \<open>[0-9]\<close> of the first regular expression.\<close>

definition is_az :: "nat \<Rightarrow> bool" where
  "is_az c \<longleftrightarrow> 97 \<le> c \<and> c \<le> 122"

definition is_digit :: "nat \<Rightarrow> bool" where
  "is_digit c \<longleftrightarrow> 48 \<le> c \<and> c \<le> 57"

text \<open>\<open>s.strip(chars)\<close>: drop the characters of the class from both ends.\<close>

definition lstrip :: "(nat \<Rightarrow> bool) \<Rightarrow> pystr \<Rightarrow> pystr" where
  "lstrip P s = dropWhile P s"

definition rstrip :: "(nat \<Rightarrow> bool) \<Rightarrow> pystr \<Rightarrow> pystr" where
  "rstrip P s = rev (dropWhile P (rev s))"

definition strip :: "(nat \<Rightarrow> bool) \<Rightarrow> pystr \<Rightarrow> pystr" where
  "strip P s = rstrip P (lstrip P s)"

text \<open>\<open>re.sub(r"[^a-z0-9\s]", "", name)\<close>: every character outside the class goes.\<close>

definition keep_char :: "nat \<Rightarrow> bool" where
  "keep_char c \<longleftrightarrow> is_az c \<or> is_digit c \<or> is_space c"

definition remove_special :: "pystr \<Rightarrow> pystr" where
  "remove_special s = filter keep_char s"

text \<open>
  \<open>re.sub(r"\s+", "_", name)\<close>: scanning from the left, each maximal run of
  whitespace is replaced by one underscore.
\<close>

function spaces_to_underscore :: "pystr \<Rightarrow> pystr" where
  "spaces_to_underscore [] = []"
| "spaces_to_underscore (c # cs) =
     (if is_space c then 95 # spaces_to_underscore (dropWhile is_space cs)
      else c # spaces_to_underscore cs)"
  by pat_completeness auto
termination
  by (relation "measure length") (auto simp: length_dropWhile_le less_Suc_eq_le)

text \<open>
  \<open>str.lower()\<close> follows the Unicode case tables, which are not part of the
  repository; the function is a parameter, and nothing is assumed about it.
  \<open>ascii_lower\<close> is what it does on ASCII text.
\<close>

definition ascii_lower :: "pystr \<Rightarrow> pystr" where
  "ascii_lower s = map (\<lambda>c. if 65 \<le> c \<and> c \<le> 90 then c + 32 else c) s"

text \<open>
  \<^verbatim>\<open>
  def snake_case(name):
      name = name.strip().lower()
      name = re.sub(r"[^a-z0-9\s]", "", name)
      name = re.sub(r"\s+", "_", name)
      return name.strip("_")
  \<close>
\<close>

definition snake_case :: "(pystr \<Rightarrow> pystr) \<Rightarrow> pystr \<Rightarrow> pystr" where
  "snake_case lower name =
     (let name1 = lower (strip is_space name);
          name2 = remove_special name1;
          name3 = spaces_to_underscore name2
      in strip is_underscore name3)"

text \<open>
  The words of a string as \<open>str.split()\<close> gives them (maximal runs of characters
  that are not whitespace), and \<open>"_".join\<close>. They state what the normaliser returns.
\<close>

function split_ws :: "pystr \<Rightarrow> pystr list" where
  "split_ws s =
     (case dropWhile is_space s of
        [] \<Rightarrow> []
      | c # cs \<Rightarrow> takeWhile (\<lambda>x. \<not> is_space x) (c # cs)
                 # split_ws (dropWhile (\<lambda>x. \<not> is_space x) cs))"
  by pat_completeness auto
termination
proof (relation "measure length", goal_cases)
  case 1
  show ?case by simp
next
  case (2 s c cs)
  have "length (dropWhile (\<lambda>x. \<not> is_space x) cs) \<le> length cs"
    by (rule length_dropWhile_le)
  moreover have "length (c # cs) \<le> length s"
    using length_dropWhile_le [of is_space s] 2 by simp
  ultimately show ?case by simp
qed

declare split_ws.simps [simp del]

fun join_underscore :: "pystr list \<Rightarrow> pystr" where
  "join_underscore [] = []"
| "join_underscore [w] = w"
| "join_underscore (w # ws) = w @ 95 # join_underscore ws"

subsection \<open>Values decoded from JSON and the Python operations on them\<close>

text \<open>
  \<open>response.json()\<close> and \<open>json.load\<close> return Python values built from \<open>None\<close>,
  booleans, numbers, strings, lists and dicts with string keys. Numbers are integers
  here; the program never computes with them. A dict is an association list read with
  \<open>map_of\<close>; a missing \<open>dict.get\<close> default \<open>None\<close> is \<open>JNull\<close>.
\<close>

datatype json =
    JNull
  | JBool bool
  | JNum int
  | JStr pystr
  | JArr "json list"
  | JObj "(pystr \<times> json) list"

text \<open>The exceptions that occur; all are subclasses of \<open>Exception\<close>.\<close>

datatype exn =
    KeyError
  | IndexError
  | TypeError
  | AttributeError
  | ValueError
  | JSONDecodeError
  | RequestException
  | ParserError
  | OSError

text \<open>\<open>bool(x)\<close>.\<close>

fun truthy :: "json \<Rightarrow> bool" where
  "truthy JNull = False"
| "truthy (JBool b) = b"
| "truthy (JNum n) = (n \<noteq> 0)"
| "truthy (JStr s) = (s \<noteq> [])"
| "truthy (JArr xs) = (xs \<noteq> [])"
| "truthy (JObj kvs) = (kvs \<noteq> [])"

text \<open>
  \<open>a == b\<close>: \<open>True\<close> and \<open>False\<close> equal \<open>1\<close> and \<open>0\<close>, lists are equal
  element by element, dicts when they have the same keys with equal values.
\<close>

function py_eq :: "json \<Rightarrow> json \<Rightarrow> bool" where
  "py_eq JNull b = (b = JNull)"
| "py_eq (JStr s) b = (b = JStr s)"
| "py_eq (JBool x) b =
     (case b of JBool y \<Rightarrow> x = y | JNum n \<Rightarrow> n = (if x then 1 else 0) | _ \<Rightarrow> False)"
| "py_eq (JNum m) b =
     (case b of JBool y \<Rightarrow> m = (if y then 1 else 0) | JNum n \<Rightarrow> m = n | _ \<Rightarrow> False)"
| "py_eq (JArr xs) b = (case b of JArr ys \<Rightarrow> list_all2 py_eq xs ys | _ \<Rightarrow> False)"
| "py_eq (JObj kvs) b =
     (case b of
        JObj kws \<Rightarrow>
          list_all (\<lambda>k. rel_option py_eq (map_of kvs k) (map_of kws k))
            (map fst kvs @ map fst kws)
      | _ \<Rightarrow> False)"
  by pat_completeness auto
termination
proof (relation "measure (\<lambda>(a, b). size a)", goal_cases)
  case 1
  show ?case by simp
next
  case (2 xs b ys x y)
  then show ?case by (simp add: size_list_estimation' less_Suc_eq_le)
next
  case (3 kvs b kws k v v')
  have bound: "map_of al k = Some v \<Longrightarrow> size v \<le> size_list (size_prod (\<lambda>x. 0) size) al"
    for al :: "(pystr \<times> json) list"
    by (induction al) (auto split: if_splits)
  from 3 have "map_of kvs k = Some v" by simp
  then show ?case using bound [of kvs] by (simp add: less_Suc_eq_le)
qed

text \<open>\<open>needle in hay\<close> on two strings: a contiguous occurrence.\<close>

fun str_contains :: "pystr \<Rightarrow> pystr \<Rightarrow> bool" where
  "str_contains needle [] = (needle = [])"
| "str_contains needle (c # cs) = (prefix needle (c # cs) \<or> str_contains needle cs)"

text \<open>\<open>x[k]\<close> for a string \<open>k\<close>: only a dict can be indexed by a string.\<close>

fun py_getitem :: "json \<Rightarrow> pystr \<Rightarrow> exn + json" where
  "py_getitem (JObj kvs) k = (case map_of kvs k of None \<Rightarrow> Inl KeyError | Some v \<Rightarrow> Inr v)"
| "py_getitem _ k = Inl TypeError"

text \<open>\<open>x.get(k, default)\<close>: only a dict has the method.\<close>

fun py_get :: "json \<Rightarrow> pystr \<Rightarrow> json \<Rightarrow> exn + json" where
  "py_get (JObj kvs) k dflt = Inr (case map_of kvs k of None \<Rightarrow> dflt | Some v \<Rightarrow> v)"
| "py_get _ k dflt = Inl AttributeError"

text \<open>\<open>x[0]\<close>.\<close>

fun py_first :: "json \<Rightarrow> exn + json" where
  "py_first (JArr []) = Inl IndexError"
| "py_first (JArr (x # xs)) = Inr x"
| "py_first (JStr []) = Inl IndexError"
| "py_first (JStr (c # cs)) = Inr (JStr [c])"
| "py_first (JObj kvs) = Inl KeyError"
| "py_first _ = Inl TypeError"

text \<open>
  \<open>k in x\<close> for a string \<open>k\<close>: a substring of a string, an element of a list, a
  key of a dict; anything else is not iterable.
\<close>

fun py_contains :: "json \<Rightarrow> pystr \<Rightarrow> exn + bool" where
  "py_contains (JStr s) k = Inr (str_contains k s)"
| "py_contains (JArr xs) k = Inr (list_ex (py_eq (JStr k)) xs)"
| "py_contains (JObj kvs) k = Inr (map_of kvs k \<noteq> None)"
| "py_contains _ k = Inl TypeError"

text \<open>\<open>for d in x\<close>: the elements of a list, the keys of a dict, the characters of a string.\<close>

fun py_iter :: "json \<Rightarrow> exn + json list" where
  "py_iter (JArr xs) = Inr xs"
| "py_iter (JObj kvs) = Inr (map (\<lambda>kv. JStr (fst kv)) kvs)"
| "py_iter (JStr s) = Inr (map (\<lambda>c. JStr [c]) s)"
| "py_iter _ = Inl TypeError"

text \<open>\<open>x[k] = v\<close> for a string \<open>k\<close>.\<close>

fun py_setitem :: "json \<Rightarrow> pystr \<Rightarrow> json \<Rightarrow> exn + json" where
  "py_setitem (JObj kvs) k v = Inr (JObj (AList.update k v kvs))"
| "py_setitem _ k v = Inl TypeError"

text \<open>\<open>x.copy()\<close>: dicts and lists have the method.\<close>

fun py_copy :: "json \<Rightarrow> exn + json" where
  "py_copy (JObj kvs) = Inr (JObj kvs)"
| "py_copy (JArr xs) = Inr (JArr xs)"
| "py_copy _ = Inl AttributeError"

subsection \<open>The disk and the environment\<close>

text \<open>
  A table is what \<open>pandas\<close> holds after parsing: the column labels in order and the
  rows. How \<open>pandas\<close> parses and prints cells is not the program's doing; a cell is
  the text \<open>pandas\<close> holds for it.
\<close>

record table =
  columns :: "pystr list"
  rows :: "pystr list list"

text \<open>
  \<open>DataFrame.to_csv(path)\<close> opens the path for writing, which empties the file, and
  then writes the text. It may fail before the file is opened (\<open>Refused\<close>) or after only
  a prefix of the text has reached the file (\<open>Broken\<close>, with the length of the prefix).
\<close>

datatype wfault = Refused | Broken nat

text \<open>
  What the libraries compute and what the outside world answers in one run:
  \<^item> \<open>str_lower\<close>: \<open>str.lower()\<close>;
  \<^item> \<open>urlparse_name\<close>: \<open>Path(urlparse(u).path).name\<close> for a string \<open>u\<close>
    (\<open>urlparse\<close> raises \<open>ValueError\<close> on some strings);
  \<^item> \<open>json_load\<close>, \<open>json_dump\<close>: the text of a file read by \<open>json.load\<close>, and the
    text \<open>json.dump(\<dots>, indent=2)\<close> writes;
  \<^item> \<open>to_csv_text\<close>: the text \<open>to_csv(\<dots>, index=False)\<close> writes for a table;
  \<^item> \<open>get_catalog\<close>: \<open>requests.get\<close>, \<open>raise_for_status\<close> and \<open>response.json()\<close>;
  \<^item> \<open>pd_read_csv\<close>: download and parse the content at a URL;
  \<^item> \<open>disk_fault\<close>: whether, and how, writing the output file of that name fails.
\<close>

record env =
  str_lower :: "pystr \<Rightarrow> pystr"
  urlparse_name :: "pystr \<Rightarrow> exn + pystr"
  json_load :: "pystr \<Rightarrow> exn + json"
  json_dump :: "json \<Rightarrow> pystr"
  to_csv_text :: "table \<Rightarrow> pystr"
  get_catalog :: "exn + json"
  pd_read_csv :: "pystr \<Rightarrow> exn + table"
  disk_fault :: "pystr \<Rightarrow> wfault option"

text \<open>
  The disk, as far as the program touches it: whether \<open>cms_hospitals_data\<close> exists, and
  the regular files in it by name, with their text. Two logs record what the program
  asked for: the URLs handed to \<open>pd.read_csv\<close> and the snapshots handed to
  \<open>save_metadata\<close>. The directory and the metadata file are taken to be writable:
  \<open>mkdir\<close> and the write of \<open>metadata.json\<close> do not fail.
\<close>

record world =
  dir_exists :: bool
  files :: "pystr \<rightharpoonup> pystr"
  fetched :: "pystr list"
  saved :: "json list"

definition metadata_file :: pystr where
  "metadata_file = ustr ''metadata.json''"

text \<open>\<open>OUTPUT_DIR.mkdir(exist_ok=True)\<close>.\<close>

definition mkdir :: "world \<Rightarrow> world" where
  "mkdir w = w\<lparr>dir_exists := True\<rparr>"

subsection \<open>Metadata store\<close>

text \<open>
  \<^verbatim>\<open>
  def load_metadata():
      if METADATA_FILE.exists():
          with open(METADATA_FILE, "r") as f:
              return json.load(f)
      return {}
  \<close>
\<close>

definition load_metadata :: "env \<Rightarrow> world \<Rightarrow> exn + json" where
  "load_metadata E w =
     (case files w metadata_file of
        Some txt \<Rightarrow> json_load E txt
      | None \<Rightarrow> Inr (JObj []))"

text \<open>
  \<^verbatim>\<open>
  def save_metadata(metadata):
      OUTPUT_DIR.mkdir(exist_ok=True)
      with open(METADATA_FILE, "w") as f:
          json.dump(metadata, f, indent=2)
  \<close>
\<close>

definition save_metadata :: "env \<Rightarrow> json \<Rightarrow> world \<Rightarrow> world" where
  "save_metadata E metadata w =
     (let w1 = mkdir w
      in w1\<lparr>files := (files w1)(metadata_file \<mapsto> json_dump E metadata),
             saved := saved w1 @ [metadata]\<rparr>)"

subsection \<open>Catalog fetcher\<close>

text \<open>
  \<^verbatim>\<open>
  def fetch_hospital_datasets():
      response = requests.get(SOURCE_URL)
      response.raise_for_status()
      data = response.json()
      return [d for d in data if 'Hospitals' in d.get('theme', '')]
  \<close>
  \<open>is_hospital\<close> is the condition of the comprehension, \<open>filter_hospitals\<close> the
  comprehension: the first element that raises ends it.
\<close>

definition is_hospital :: "json \<Rightarrow> exn + bool" where
  "is_hospital d =
     (case py_get d (ustr ''theme'') (JStr []) of
        Inl e \<Rightarrow> Inl e
      | Inr theme \<Rightarrow> py_contains theme (ustr ''Hospitals''))"

fun filter_hospitals :: "json list \<Rightarrow> exn + json list" where
  "filter_hospitals [] = Inr []"
| "filter_hospitals (d # ds) =
     (case is_hospital d of
        Inl e \<Rightarrow> Inl e
      | Inr b \<Rightarrow>
          (case filter_hospitals ds of
             Inl e \<Rightarrow> Inl e
           | Inr r \<Rightarrow> Inr (if b then d # r else r)))"

definition fetch_hospital_datasets :: "env \<Rightarrow> exn + json list" where
  "fetch_hospital_datasets E =
     (case get_catalog E of
        Inl e \<Rightarrow> Inl e
      | Inr data \<Rightarrow>
          (case py_iter data of
             Inl e \<Rightarrow> Inl e
           | Inr ds \<Rightarrow> filter_hospitals ds))"

subsection \<open>Dataset processor\<close>

text \<open>
  \<open>Path(urlparse(download_url).path).name\<close>. For a string the libraries answer. For
  anything else \<open>urlparse\<close> either calls \<open>decode\<close> on the value, which it does not
  have (\<open>AttributeError\<close>), or, when the value is falsy, returns a result in bytes
  whose path \<open>Path\<close> refuses (\<open>TypeError\<close>).
\<close>

definition path_name :: "env \<Rightarrow> json \<Rightarrow> exn + pystr" where
  "path_name E download_url =
     (case download_url of
        JStr u \<Rightarrow> urlparse_name E u
      | _ \<Rightarrow> if truthy download_url then Inl AttributeError else Inl TypeError)"

text \<open>\<open>dataset.get('distribution', [{}])[0].get('downloadURL')\<close>.\<close>

definition download_url_of :: "json \<Rightarrow> exn + json" where
  "download_url_of dataset =
     (case py_get dataset (ustr ''distribution'') (JArr [JObj []]) of
        Inl e \<Rightarrow> Inl e
      | Inr distribution \<Rightarrow>
          (case py_first distribution of
             Inl e \<Rightarrow> Inl e
           | Inr entry \<Rightarrow> py_get entry (ustr ''downloadURL'') JNull))"

text \<open>\<open>name in last_metadata and last_metadata[name] == modified\<close>.\<close>

definition unchanged :: "json \<Rightarrow> pystr \<Rightarrow> json \<Rightarrow> exn + bool" where
  "unchanged last_metadata name modified =
     (case py_contains last_metadata name of
        Inl e \<Rightarrow> Inl e
      | Inr present \<Rightarrow>
          if present then
            (case py_getitem last_metadata name of
               Inl e \<Rightarrow> Inl e
             | Inr v \<Rightarrow> Inr (py_eq v modified))
          else Inr False)"

text \<open>\<open>pd.read_csv(download_url, low_memory=False)\<close>; every call is logged.\<close>

definition read_csv :: "env \<Rightarrow> json \<Rightarrow> world \<Rightarrow> (exn + table) \<times> world" where
  "read_csv E download_url w =
     (case download_url of
        JStr u \<Rightarrow> (pd_read_csv E u, w\<lparr>fetched := fetched w @ [u]\<rparr>)
      | _ \<Rightarrow> (Inl ValueError, w))"

text \<open>
  \<open>df.to_csv(OUTPUT_DIR / name, index=False)\<close>. The path is the directory itself for
  an empty name and its parent for \<open>..\<close>; neither can be opened as a file, and nothing
  can be written into a directory that does not exist.
\<close>

definition to_csv :: "env \<Rightarrow> table \<Rightarrow> pystr \<Rightarrow> world \<Rightarrow> (exn + unit) \<times> world" where
  "to_csv E df name w =
     (if \<not> dir_exists w \<or> name = [] \<or> name = ustr ''..'' then (Inl OSError, w)
      else
        (case disk_fault E name of
           None \<Rightarrow> (Inr (), w\<lparr>files := (files w)(name \<mapsto> to_csv_text E df)\<rparr>)
         | Some Refused \<Rightarrow> (Inl OSError, w)
         | Some (Broken n) \<Rightarrow>
             (Inl OSError, w\<lparr>files := (files w)(name \<mapsto> take n (to_csv_text E df))\<rparr>)))"

text \<open>
  The body of the \<open>try\<close> statement (the two \<open>print\<close> calls write to standard output
  only and are left out):
  \<^verbatim>\<open>
        df = pd.read_csv(download_url, low_memory=False)
        df.columns = [snake_case(col) for col in df.columns]
        output_path = OUTPUT_DIR / f"{name}"
        df.to_csv(output_path, index=False)
        return name, modified
  \<close>
\<close>

definition try_block ::
  "env \<Rightarrow> json \<Rightarrow> pystr \<Rightarrow> json \<Rightarrow> world \<Rightarrow> (exn + pystr \<times> json) \<times> world" where
  "try_block E download_url name modified w =
     (case read_csv E download_url w of
        (Inl e, w1) \<Rightarrow> (Inl e, w1)
      | (Inr df, w1) \<Rightarrow>
          (let df1 = df\<lparr>columns := map (snake_case (str_lower E)) (columns df)\<rparr>
           in case to_csv E df1 name w1 of
                (Inl e, w2) \<Rightarrow> (Inl e, w2)
              | (Inr u, w2) \<Rightarrow> (Inr (name, modified), w2)))"

text \<open>
  \<^verbatim>\<open>
  def download_and_process(dataset, last_metadata):
      title = dataset['title']
      modified = dataset.get('modified')
      download_url = dataset.get('distribution', [{}])[0].get('downloadURL')
      file_path = urlparse(download_url).path
      name = Path(file_path).name
      if name in last_metadata and last_metadata[name] == modified:
          return None
      try:
          ...
      except Exception as e:
          return None
  \<close>
  The result is \<open>Inl\<close> for an exception that leaves the function, \<open>Inr None\<close> for
  \<open>return None\<close> and \<open>Inr (Some (name, modified))\<close> for the pair.
\<close>

definition download_and_process ::
  "env \<Rightarrow> json \<Rightarrow> json \<Rightarrow> world \<Rightarrow> (exn + (pystr \<times> json) option) \<times> world" where
  "download_and_process E dataset last_metadata w =
     (case py_getitem dataset (ustr ''title'') of
        Inl e \<Rightarrow> (Inl e, w)
      | Inr title \<Rightarrow>
     (case py_get dataset (ustr ''modified'') JNull of
        Inl e \<Rightarrow> (Inl e, w)
      | Inr modified \<Rightarrow>
     (case download_url_of dataset of
        Inl e \<Rightarrow> (Inl e, w)
      | Inr download_url \<Rightarrow>
     (case path_name E download_url of
        Inl e \<Rightarrow> (Inl e, w)
      | Inr name \<Rightarrow>
     (case unchanged last_metadata name modified of
        Inl e \<Rightarrow> (Inl e, w)
      | Inr skip \<Rightarrow>
          if skip then (Inr None, w)
          else
            (case try_block E download_url name modified w of
               (Inl e, w1) \<Rightarrow> (Inr None, w1)
             | (Inr r, w1) \<Rightarrow> (Inr (Some r), w1)))))))"

subsection \<open>Pipeline orchestrator\<close>

text \<open>
  The pool runs one \<open>download_and_process\<close> per descriptor, all with the same
  \<open>last_metadata\<close>; every descriptor is submitted before any result is read, and
  leaving the \<open>with\<close> block waits for all workers. The workers are run here one after
  the other in submission order, which is one of the schedules the pool allows. A
  future holds what its worker returned or raised.
\<close>

fun run_pool ::
  "env \<Rightarrow> json list \<Rightarrow> json \<Rightarrow> world \<Rightarrow> (exn + (pystr \<times> json) option) list \<times> world" where
  "run_pool E [] last_metadata w = ([], w)"
| "run_pool E (d # ds) last_metadata w =
     (case download_and_process E d last_metadata w of
        (r, w1) \<Rightarrow>
          (case run_pool E ds last_metadata w1 of
             (rs, w2) \<Rightarrow> (r # rs, w2)))"

text \<open>
  \<^verbatim>\<open>
        for future in futures:
            result = future.result()
            if result:
                name, modified = result
                updated_metadata[name] = modified
  \<close>
  \<open>future.result()\<close> raises what the worker raised; a pair is never falsy.
\<close>

fun collect :: "(exn + (pystr \<times> json) option) list \<Rightarrow> json \<Rightarrow> exn + json" where
  "collect [] updated_metadata = Inr updated_metadata"
| "collect (r # rs) updated_metadata =
     (case r of
        Inl e \<Rightarrow> Inl e
      | Inr None \<Rightarrow> collect rs updated_metadata
      | Inr (Some (name, modified)) \<Rightarrow>
          (case py_setitem updated_metadata name modified of
             Inl e \<Rightarrow> Inl e
           | Inr updated \<Rightarrow> collect rs updated))"

text \<open>
  \<^verbatim>\<open>
  def main():
      OUTPUT_DIR.mkdir(exist_ok=True)
      last_metadata = load_metadata()
      updated_metadata = last_metadata.copy()
      datasets = fetch_hospital_datasets()
      with ThreadPoolExecutor(max_workers=os.cpu_count()) as executor:
          futures = [executor.submit(download_and_process, d, last_metadata) for d in datasets]
          for future in futures: ...
      save_metadata(updated_metadata)
  \<close>
\<close>

definition main :: "env \<Rightarrow> world \<Rightarrow> (exn + unit) \<times> world" where
  "main E w =
     (let w0 = mkdir w in
      case load_metadata E w0 of
        Inl e \<Rightarrow> (Inl e, w0)
      | Inr last_metadata \<Rightarrow>
     (case py_copy last_metadata of
        Inl e \<Rightarrow> (Inl e, w0)
      | Inr updated_metadata \<Rightarrow>
     (case fetch_hospital_datasets E of
        Inl e \<Rightarrow> (Inl e, w0)
      | Inr datasets \<Rightarrow>
     (case run_pool E datasets last_metadata w0 of
        (results, w1) \<Rightarrow>
     (case collect results updated_metadata of
        Inl e \<Rightarrow> (Inl e, w1)
      | Inr updated \<Rightarrow> (Inr (), save_metadata E updated w1))))))"

subsection \<open>What a descriptor stands for\<close>

text \<open>
  The filename and the timestamp the processor reads off a descriptor (lines 45 to 48
  of the source), named so that statements about runs can mention them.
\<close>

definition derived_name :: "env \<Rightarrow> json \<Rightarrow> exn + pystr" where
  "derived_name E dataset =
     (case download_url_of dataset of
        Inl e \<Rightarrow> Inl e
      | Inr download_url \<Rightarrow> path_name E download_url)"

definition modified_of :: "json \<Rightarrow> json" where
  "modified_of dataset =
     (case py_get dataset (ustr ''modified'') JNull of Inl e \<Rightarrow> JNull | Inr m \<Rightarrow> m)"

text \<open>
  A descriptor passes the lines before the \<open>try\<close> statement when it has a title and a
  filename can be derived from it.
\<close>

definition has_title :: "json \<Rightarrow> bool" where
  "has_title dataset \<longleftrightarrow> \<not> isl (py_getitem dataset (ustr ''title''))"

definition well_formed :: "env \<Rightarrow> json \<Rightarrow> bool" where
  "well_formed E dataset \<longleftrightarrow> has_title dataset \<and> \<not> isl (derived_name E dataset)"

text \<open>The skip branch: the snapshot holds the derived filename with an equal timestamp.\<close>

definition takes_skip_branch :: "env \<Rightarrow> json \<Rightarrow> json \<Rightarrow> bool" where
  "takes_skip_branch E dataset last_metadata \<longleftrightarrow>
     (case derived_name E dataset of
        Inl e \<Rightarrow> False
      | Inr name \<Rightarrow> unchanged last_metadata name (modified_of dataset) = Inr True)"

subsection \<open>A concrete environment\<close>

text \<open>
  Concrete answers of the libraries and of the outside world, on which the theorems
  below are run. Each is what the real library returns on the inputs used here and is
  not meant for others.
\<close>

text \<open>
  \<open>Path(urlparse(u).path).name\<close> for a URL without query or fragment that does not
  end in a slash: the text after the last slash.
\<close>

definition last_segment :: "pystr \<Rightarrow> exn + pystr" where
  "last_segment u = Inr (rev (takeWhile (\<lambda>c. c \<noteq> 47) (rev u)))"

text \<open>
  \<open>json.dump(\<dots>, indent=2)\<close> for a dict whose values are strings that need no
  escaping, or \<open>None\<close>.
\<close>

fun dump_value :: "json \<Rightarrow> pystr" where
  "dump_value (JStr s) = 34 # s @ [34]"
| "dump_value v = ustr ''null''"

fun dump_items :: "(pystr \<times> json) list \<Rightarrow> pystr" where
  "dump_items [] = []"
| "dump_items [(k, v)] = [10, 32, 32, 34] @ k @ [34, 58, 32] @ dump_value v @ [10]"
| "dump_items ((k, v) # kvs) =
     [10, 32, 32, 34] @ k @ [34, 58, 32] @ dump_value v @ [44] @ dump_items kvs"

definition dump_flat :: "json \<Rightarrow> pystr" where
  "dump_flat v = (case v of JObj kvs \<Rightarrow> 123 # dump_items kvs @ [125] | _ \<Rightarrow> ustr ''null'')"

text \<open>\<open>json.load\<close> on the texts of the listed snapshots; any other text is malformed.\<close>

definition load_known :: "json list \<Rightarrow> pystr \<Rightarrow> exn + json" where
  "load_known known txt =
     (case find (\<lambda>v. dump_flat v = txt) known of
        Some v \<Rightarrow> Inr v
      | None \<Rightarrow> Inl JSONDecodeError)"

text \<open>\<open>to_csv(index=False)\<close> for cells that need no quoting.\<close>

fun join_comma :: "pystr list \<Rightarrow> pystr" where
  "join_comma [] = []"
| "join_comma [c] = c"
| "join_comma (c # cs) = c @ 44 # join_comma cs"

definition plain_csv :: "table \<Rightarrow> pystr" where
  "plain_csv t = concat (map (\<lambda>r. join_comma r @ [10]) (columns t # rows t))"

text \<open>A catalog entry as the endpoint serves it, with the theme list \<open>["Hospitals"]\<close>.\<close>

definition descriptor :: "pystr \<Rightarrow> pystr \<Rightarrow> pystr \<Rightarrow> json" where
  "descriptor title modified url =
     JObj [(ustr ''title'', JStr title),
           (ustr ''theme'', JArr [JStr (ustr ''Hospitals'')]),
           (ustr ''modified'', JStr modified),
           (ustr ''distribution'', JArr [JObj [(ustr ''downloadURL'', JStr url)]])]"

definition url_a :: pystr where
  "url_a = ustr ''https://data.cms.gov/files/a.csv''"

definition url_b :: pystr where
  "url_b = ustr ''https://data.cms.gov/files/b.csv''"

definition url_a_mirror :: pystr where
  "url_a_mirror = ustr ''https://data.cms.gov/mirror/a.csv''"

text \<open>
  \<open>pd.read_csv\<close> on comma-separated text that has a header line with distinct labels
  and rows of as many cells, none of them quoted, each a run of decimal digits or other
  text that \<open>pandas\<close> keeps as a string: blank lines are skipped, a column whose cells
  are all digits is read as integers, and an integer is printed without leading zeros.
\<close>

fun split_at :: "nat \<Rightarrow> pystr \<Rightarrow> pystr list" where
  "split_at sep [] = [[]]"
| "split_at sep (c # cs) =
     (if c = sep then [] # split_at sep cs
      else (case split_at sep cs of [] \<Rightarrow> [[c]] | p # ps \<Rightarrow> (c # p) # ps))"

definition text_lines :: "pystr \<Rightarrow> pystr list" where
  "text_lines s = filter (\<lambda>l. l \<noteq> []) (split_at 10 s)"

definition is_integer_cell :: "pystr \<Rightarrow> bool" where
  "is_integer_cell c \<longleftrightarrow> c \<noteq> [] \<and> list_all is_digit c"

definition integer_text :: "pystr \<Rightarrow> pystr" where
  "integer_text c = (case dropWhile (\<lambda>d. d = 48) c of [] \<Rightarrow> [48] | ds \<Rightarrow> ds)"

definition retype_column :: "pystr list \<Rightarrow> pystr list" where
  "retype_column cells =
     (if list_all is_integer_cell cells then map integer_text cells else cells)"

definition pandas_parse :: "pystr \<Rightarrow> table" where
  "pandas_parse s =
     (case map (split_at 44) (text_lines s) of
        [] \<Rightarrow> \<lparr>columns = [], rows = []\<rparr>
      | header # body \<Rightarrow>
          \<lparr>columns = header, rows = transpose (map retype_column (transpose body))\<rparr>)"

text \<open>
  The text the catalog's URLs serve in the examples, and the table \<open>pd.read_csv\<close>
  holds for it: the facility number \<open>010001\<close> has become the integer \<open>10001\<close>.
\<close>

definition served_a :: pystr where
  "served_a = ustr ''Facility ID,Patient Survey  Score!'' @ [10] @ ustr ''010001,4'' @ [10]"

definition table_a :: table where
  "table_a = \<lparr>columns = [ustr ''Facility ID'', ustr ''Patient Survey  Score!''],
              rows = [[ustr ''10001'', ustr ''4'']]\<rparr>"

definition snapshot_a :: "pystr \<Rightarrow> json" where
  "snapshot_a modified = JObj [(ustr ''a.csv'', JStr modified)]"

text \<open>Every download answers \<open>table_a\<close>, every write succeeds, the catalog is empty.\<close>

definition demo_env :: env where
  "demo_env =
     \<lparr>str_lower = ascii_lower,
      urlparse_name = last_segment,
      json_load =
        load_known [JObj [], snapshot_a (ustr ''2021-01-01''), snapshot_a (ustr ''2021-02-01'')],
      json_dump = dump_flat,
      to_csv_text = plain_csv,
      get_catalog = Inr (JArr []),
      pd_read_csv = (\<lambda>u. Inr table_a),
      disk_fault = (\<lambda>n. None)\<rparr>"

definition fresh_disk :: world where
  "fresh_disk = \<lparr>dir_exists = False, files = Map.empty, fetched = [], saved = []\<rparr>"

text \<open>A catalog entry that passes the theme filter but has no title.\<close>

definition untitled_descriptor :: "pystr \<Rightarrow> pystr \<Rightarrow> json" where
  "untitled_descriptor modified url =
     JObj [(ustr ''theme'', JArr [JStr (ustr ''Hospitals'')]),
           (ustr ''modified'', JStr modified),
           (ustr ''distribution'', JArr [JObj [(ustr ''downloadURL'', JStr url)]])]"

definition catalog_with_untitled :: json where
  "catalog_with_untitled =
     JArr [descriptor (ustr ''A'') (ustr ''2021-02-01'') url_a,
           untitled_descriptor (ustr ''2021-02-01'') url_b]"

text \<open>A disk with the output directory and one file in it.\<close>

definition disk_with :: "pystr \<Rightarrow> pystr \<Rightarrow> world" where
  "disk_with name txt = \<lparr>dir_exists = True, files = [name \<mapsto> txt], fetched = [], saved = []\<rparr>"

text \<open>What \<open>to_csv\<close> writes for \<open>table_a\<close> once its headers are normalised.\<close>

definition normalised_a_text :: pystr where
  "normalised_a_text =
     ustr ''facility_id,patient_survey_score'' @ [10] @ ustr ''10001,4'' @ [10]"

subsection \<open>The theme filter, as the specification words it\<close>

text \<open>
  "The theme contains Hospitals", for each shape of \<open>theme\<close> that Python's \<open>in\<close>
  accepts: a string contains it as a substring, a list (the shape the data model gives)
  has it as an element, a dict has it as a key. A descriptor without \<open>theme\<close> does
  not match.
\<close>

definition hospital_theme :: "json \<Rightarrow> bool" where
  "hospital_theme d =
     (case d of
        JObj kvs \<Rightarrow>
          (case map_of kvs (ustr ''theme'') of
             None \<Rightarrow> False
           | Some (JStr s) \<Rightarrow> sublist (ustr ''Hospitals'') s
           | Some (JArr xs) \<Rightarrow> JStr (ustr ''Hospitals'') \<in> set xs
           | Some (JObj m) \<Rightarrow> ustr ''Hospitals'' \<in> fst ` set m
           | Some other \<Rightarrow> False)
      | _ \<Rightarrow> False)"

text \<open>A descriptor is a dict whose \<open>theme\<close>, when present, is a string, a list or a dict.\<close>

definition theme_iterable :: "json \<Rightarrow> bool" where
  "theme_iterable d =
     (case d of
        JObj kvs \<Rightarrow>
          (case map_of kvs (ustr ''theme'') of
             Some JNull \<Rightarrow> False
           | Some (JBool b) \<Rightarrow> False
           | Some (JNum n) \<Rightarrow> False
           | _ \<Rightarrow> True)
      | _ \<Rightarrow> False)"

text \<open>Catalog entries with a given \<open>theme\<close>, and one without.\<close>

definition themed :: "json \<Rightarrow> json" where
  "themed theme =
     JObj [(ustr ''title'', JStr (ustr ''A'')),
           (ustr ''theme'', theme),
           (ustr ''modified'', JStr (ustr ''2021-01-01'')),
           (ustr ''distribution'', JArr [JObj [(ustr ''downloadURL'', JStr url_a)]])]"

definition unthemed :: json where
  "unthemed =
     JObj [(ustr ''title'', JStr (ustr ''A'')),
           (ustr ''modified'', JStr (ustr ''2021-01-01'')),
           (ustr ''distribution'', JArr [JObj [(ustr ''downloadURL'', JStr url_a)]])]"

definition theme_catalog :: "json list" where
  "theme_catalog =
     [themed (JStr (ustr ''Hospitals - General'')),
      themed (JStr (ustr ''Nursing Homes'')),
      unthemed,
      themed (JArr [JStr (ustr ''Hospitals'')]),
      themed (JArr [JStr (ustr ''Hospitals - General'')])]"

subsection \<open>The pairs a run records\<close>

text \<open>
  The \<open>(name, modified)\<close> pairs among the results of the pool, in order: what the
  collecting loop writes into the snapshot.
\<close>

fun successes :: "(exn + (pystr \<times> json) option) list \<Rightarrow> (pystr \<times> json) list" where
  "successes [] = []"
| "successes (Inr (Some p) # rs) = p # successes rs"
| "successes (r # rs) = successes rs"

text \<open>
  The result of each descriptor when it is processed alone on a given disk, and the
  snapshot the collecting loop builds from a list of results none of which is an
  exception: each pair is written in order, so the last pair for a filename stays.
\<close>

definition item_results ::
  "env \<Rightarrow> json list \<Rightarrow> json \<Rightarrow> world \<Rightarrow> (exn + (pystr \<times> json) option) list" where
  "item_results E datasets last_metadata w =
     map (\<lambda>d. fst (download_and_process E d last_metadata w)) datasets"

definition merge_results ::
  "(exn + (pystr \<times> json) option) list \<Rightarrow> (pystr \<times> json) list \<Rightarrow> (pystr \<times> json) list" where
  "merge_results rs snapshot = fold (\<lambda>p. AList.update (fst p) (snd p)) (successes rs) snapshot"

text \<open>
  The URL a descriptor makes the processor hand to \<open>pd.read_csv\<close>: none when the
  descriptor takes the skip branch.
\<close>

definition attempted_url :: "env \<Rightarrow> json \<Rightarrow> json \<Rightarrow> pystr list" where
  "attempted_url E last_metadata dataset =
     (case download_url_of dataset of
        Inr (JStr u) \<Rightarrow> if takes_skip_branch E dataset last_metadata then [] else [u]
      | _ \<Rightarrow> [])"

text \<open>
  What a descriptor leaves in the output directory when its turn comes: nothing when it
  takes the skip branch, when its download or parse fails or when its write is refused;
  the parsed table with normalised labels, under its filename, when the write goes
  through; a prefix of that text when the write breaks after the file was opened.
\<close>

definition item_write :: "env \<Rightarrow> json \<Rightarrow> json \<Rightarrow> (pystr \<times> pystr) option" where
  "item_write E last_metadata dataset =
     (case attempted_url E last_metadata dataset of
        [] \<Rightarrow> None
      | u # us \<Rightarrow>
          (case (urlparse_name E u, pd_read_csv E u) of
             (Inr n, Inr df) \<Rightarrow>
               if n = [] \<or> n = ustr ''..'' then None
               else
                 (case disk_fault E n of
                    None \<Rightarrow>
                      Some (n, to_csv_text E
                                 (df\<lparr>columns := map (snake_case (str_lower E)) (columns df)\<rparr>))
                  | Some Refused \<Rightarrow> None
                  | Some (Broken k) \<Rightarrow>
                      Some (n, take k (to_csv_text E
                                 (df\<lparr>columns := map (snake_case (str_lower E)) (columns df)\<rparr>))))
           | _ \<Rightarrow> None))"

definition apply_write ::
  "(pystr \<times> pystr) option \<Rightarrow> (pystr \<rightharpoonup> pystr) \<Rightarrow> (pystr \<rightharpoonup> pystr)" where
  "apply_write wr fs = (case wr of None \<Rightarrow> fs | Some (n, t) \<Rightarrow> fs(n \<mapsto> t))"

text \<open>The files after every descriptor had its turn, in the order of submission.\<close>

definition pool_files ::
  "env \<Rightarrow> json list \<Rightarrow> json \<Rightarrow> (pystr \<rightharpoonup> pystr) \<Rightarrow> (pystr \<rightharpoonup> pystr)" where
  "pool_files E datasets last_metadata fs =
     fold (\<lambda>d. apply_write (item_write E last_metadata d)) datasets fs"

subsection \<open>Concrete runs\<close>

text \<open>Two catalog entries whose URLs end in the same filename \<open>a.csv\<close>.\<close>

definition same_name_catalog :: "pystr \<Rightarrow> pystr \<Rightarrow> json" where
  "same_name_catalog m1 m2 =
     JArr [descriptor (ustr ''A'') m1 url_a, descriptor (ustr ''A mirror'') m2 url_a_mirror]"

text \<open>Two catalog entries with the filenames \<open>a.csv\<close> and \<open>b.csv\<close>.\<close>

definition two_file_catalog :: "pystr \<Rightarrow> pystr \<Rightarrow> json" where
  "two_file_catalog m1 m2 =
     JArr [descriptor (ustr ''A'') m1 url_a, descriptor (ustr ''B'') m2 url_b]"

text \<open>The download of \<open>url_a\<close> fails; every other download answers \<open>table_a\<close>.\<close>

definition a_down_env :: "json \<Rightarrow> env" where
  "a_down_env catalog =
     demo_env\<lparr>get_catalog := Inr catalog,
              pd_read_csv := (\<lambda>u. if u = url_a then Inl RequestException else Inr table_a)\<rparr>"

text \<open>A disk on which an earlier run left the given snapshot.\<close>

definition disk_after :: "json \<Rightarrow> world" where
  "disk_after snapshot = disk_with metadata_file (dump_flat snapshot)"

definition snapshot_ab :: "pystr \<Rightarrow> pystr \<Rightarrow> json" where
  "snapshot_ab m1 m2 = JObj [(ustr ''a.csv'', JStr m1), (ustr ''b.csv'', JStr m2)]"

subsection \<open>The \<open>json\<close> module on dicts of strings\<close>

text \<open>
  \<open>json.dump(metadata, f, indent=2)\<close> keeps the default \<open>ensure_ascii=True\<close>: inside a
  string the quote and the backslash are escaped, newline, carriage return, tab, backspace
  and form feed get their two-letter escapes, the characters from the space to \<open>~\<close> are
  written as they are, every other code point below \<open>0x10000\<close> becomes \<open>\uXXXX\<close> with
  lower-case hex digits, and a code point from \<open>0x10000\<close> on becomes the two escapes of its
  surrogate pair.
\<close>

definition hex_digit :: "nat \<Rightarrow> nat" where
  "hex_digit d = (if d < 10 then 48 + d else 87 + d)"

definition hex4 :: "nat \<Rightarrow> pystr" where
  "hex4 n = [hex_digit (n div 4096 mod 16), hex_digit (n div 256 mod 16),
             hex_digit (n div 16 mod 16), hex_digit (n mod 16)]"

definition u_escape :: "nat \<Rightarrow> pystr" where
  "u_escape n = 92 # 117 # hex4 n"

definition escape_char :: "nat \<Rightarrow> pystr" where
  "escape_char c =
     (if c = 34 then [92, 34]
      else if c = 92 then [92, 92]
      else if c = 10 then [92, 110]
      else if c = 13 then [92, 114]
      else if c = 9 then [92, 116]
      else if c = 8 then [92, 98]
      else if c = 12 then [92, 102]
      else if 32 \<le> c \<and> c \<le> 126 then [c]
      else if c < 65536 then u_escape c
      else u_escape (55296 + (c - 65536) div 1024) @ u_escape (56320 + (c - 65536) mod 1024))"

definition encode_string :: "pystr \<Rightarrow> pystr" where
  "encode_string s = 34 # concat (map escape_char s) @ [34]"

text \<open>
  With \<open>indent=2\<close> every member of the dict is on a line of its own, indented by two
  spaces, a colon and a space separate key and value, a comma ends every line but the
  last, and the empty dict is \<open>{}\<close>.
\<close>

fun dump_members :: "(pystr \<times> pystr) list \<Rightarrow> pystr" where
  "dump_members [] = []"
| "dump_members [(k, v)] =
     [10, 32, 32] @ encode_string k @ [58, 32] @ encode_string v @ [10]"
| "dump_members ((k, v) # kvs) =
     [10, 32, 32] @ encode_string k @ [58, 32] @ encode_string v @ [44] @ dump_members kvs"

definition dump_snapshot :: "(pystr \<times> pystr) list \<Rightarrow> pystr" where
  "dump_snapshot kvs = 123 # dump_members kvs @ [125]"

text \<open>
  \<open>json.load\<close> on the text of a dict of strings.  Reading a string, a \<open>\uXXXX\<close> escape of a
  high surrogate that is followed by a \<open>\uXXXX\<close> escape of a low surrogate is joined with
  it into one code point; a raw character below the space is refused.
\<close>

definition hex_value :: "nat \<Rightarrow> nat option" where
  "hex_value c =
     (if 48 \<le> c \<and> c \<le> 57 then Some (c - 48)
      else if 97 \<le> c \<and> c \<le> 102 then Some (c - 87)
      else if 65 \<le> c \<and> c \<le> 70 then Some (c - 55)
      else None)"

fun read_hex4 :: "pystr \<Rightarrow> (nat \<times> pystr) option" where
  "read_hex4 (a # b # c # d # rest) =
     (case (hex_value a, hex_value b, hex_value c, hex_value d) of
        (Some x, Some y, Some z, Some t) \<Rightarrow> Some (4096 * x + 256 * y + 16 * z + t, rest)
      | _ \<Rightarrow> None)"
| "read_hex4 s = None"

definition is_high_surrogate :: "nat \<Rightarrow> bool" where
  "is_high_surrogate c \<longleftrightarrow> 55296 \<le> c \<and> c \<le> 56319"

definition is_low_surrogate :: "nat \<Rightarrow> bool" where
  "is_low_surrogate c \<longleftrightarrow> 56320 \<le> c \<and> c \<le> 57343"

definition read_u_escape :: "pystr \<Rightarrow> (nat \<times> pystr) option" where
  "read_u_escape s =
     (case read_hex4 s of
        None \<Rightarrow> None
      | Some (uni, rest) \<Rightarrow>
          (case rest of
             a # b # after \<Rightarrow>
               if is_high_surrogate uni \<and> a = 92 \<and> b = 117 then
                 (case read_hex4 after of
                    None \<Rightarrow> None
                  | Some (uni2, rest2) \<Rightarrow>
                      if is_low_surrogate uni2
                      then Some (65536 + (uni - 55296) * 1024 + (uni2 - 56320), rest2)
                      else Some (uni, rest))
               else Some (uni, rest)
           | _ \<Rightarrow> Some (uni, rest)))"

definition simple_escape :: "nat \<Rightarrow> nat option" where
  "simple_escape e =
     (if e = 34 \<or> e = 92 \<or> e = 47 then Some e
      else if e = 98 then Some 8
      else if e = 102 then Some 12
      else if e = 110 then Some 10
      else if e = 114 then Some 13
      else if e = 116 then Some 9
      else None)"

definition read_unit :: "pystr \<Rightarrow> (nat \<times> pystr) option" where
  "read_unit s =
     (case s of
        [] \<Rightarrow> None
      | c # cs \<Rightarrow>
          if c = 92 then
            (case cs of
               [] \<Rightarrow> None
             | e # es \<Rightarrow>
                 if e = 117 then read_u_escape es
                 else (case simple_escape e of None \<Rightarrow> None | Some x \<Rightarrow> Some (x, es)))
          else if c < 32 then None
          else Some (c, cs))"

function scan_string :: "pystr \<Rightarrow> (pystr \<times> pystr) option" where
  "scan_string s =
     (case s of
        [] \<Rightarrow> None
      | c # cs \<Rightarrow>
          if c = 34 then Some ([], cs)
          else
            (case read_unit s of
               None \<Rightarrow> None
             | Some (ch, rest) \<Rightarrow>
                 (case scan_string rest of
                    None \<Rightarrow> None
                  | Some (t, r) \<Rightarrow> Some (ch # t, r))))"
  by pat_completeness auto
termination
proof (relation "measure length", goal_cases)
  case 1
  show ?case by simp
next
  case (2 s c cs p ch rest)
  have hex: "read_hex4 x = Some (n, y) \<Longrightarrow> length y < length x" for x n y
    by (cases x rule: read_hex4.cases) (auto split: option.splits)
  have uni: "read_u_escape x = Some (n, y) \<Longrightarrow> length y < length x" for x n y
  proof -
    assume a: "read_u_escape x = Some (n, y)"
    then obtain uni r where r: "read_hex4 x = Some (uni, r)"
      by (cases "read_hex4 x") (auto simp: read_u_escape_def)
    have "length y \<le> length r"
      using a r hex [of "drop 2 r"]
      by (auto simp: read_u_escape_def split: list.splits if_splits option.splits
          dest!: hex)
    then show ?thesis using hex [OF r] by simp
  qed
  have "length rest < length s"
    using 2 uni
    by (auto simp: read_unit_def split: list.splits if_splits option.splits dest!: uni)
  then show ?case by simp
qed

declare scan_string.simps [simp del]


text \<open>
  The members of an object: whitespace is skipped around the braces, the colon and the
  commas, a key met twice keeps its first place and takes the later value.
\<close>

definition json_ws :: "nat \<Rightarrow> bool" where
  "json_ws c \<longleftrightarrow> c = 32 \<or> c = 9 \<or> c = 10 \<or> c = 13"

definition skip_ws :: "pystr \<Rightarrow> pystr" where
  "skip_ws s = dropWhile json_ws s"

definition read_member :: "pystr \<Rightarrow> ((pystr \<times> pystr) \<times> pystr) option" where
  "read_member s =
     (case s of
        [] \<Rightarrow> None
      | q # s1 \<Rightarrow>
          if q \<noteq> 34 then None
          else
            (case scan_string s1 of
               None \<Rightarrow> None
             | Some (k, s2) \<Rightarrow>
                 (case skip_ws s2 of
                    [] \<Rightarrow> None
                  | colon # s3 \<Rightarrow>
                      if colon \<noteq> 58 then None
                      else
                        (case skip_ws s3 of
                           [] \<Rightarrow> None
                         | q2 # s4 \<Rightarrow>
                             if q2 \<noteq> 34 then None
                             else
                               (case scan_string s4 of
                                  None \<Rightarrow> None
                                | Some (v, s5) \<Rightarrow> Some ((k, v), skip_ws s5))))))"

function read_members :: "pystr \<Rightarrow> ((pystr \<times> pystr) list \<times> pystr) option" where
  "read_members s =
     (case read_member s of
        None \<Rightarrow> None
      | Some (kv, rest) \<Rightarrow>
          (case rest of
             [] \<Rightarrow> None
           | c # r \<Rightarrow>
               if c = 125 then Some ([kv], r)
               else if c = 44 then
                 (case read_members (skip_ws r) of
                    None \<Rightarrow> None
                  | Some (kvs, r2) \<Rightarrow> Some (kv # kvs, r2))
               else None))"
  by pat_completeness auto
termination
proof (relation "measure length", goal_cases)
  case 1
  show ?case by simp
next
  case (2 s p kv rest c r)
  have hex: "read_hex4 x = Some (n, y) \<Longrightarrow> length y < length x" for x n y
    by (cases x rule: read_hex4.cases) (auto split: option.splits)
  have uni: "read_u_escape x = Some (n, y) \<Longrightarrow> length y < length x" for x n y
  proof -
    assume a: "read_u_escape x = Some (n, y)"
    then obtain uni r where r: "read_hex4 x = Some (uni, r)"
      by (cases "read_hex4 x") (auto simp: read_u_escape_def)
    have "length y \<le> length r"
      using a r
      by (auto simp: read_u_escape_def split: list.splits if_splits option.splits dest!: hex)
    then show ?thesis using hex [OF r] by simp
  qed
  have unit: "read_unit x = Some (n, y) \<Longrightarrow> length y < length x" for x n y
    by (auto simp: read_unit_def split: list.splits if_splits option.splits dest!: uni)
  have scan: "scan_string x = Some (t, y) \<Longrightarrow> length y < length x" for x t y
  proof (induction x arbitrary: t y rule: scan_string.induct)
    case (1 x)
    show ?case
    proof (cases x)
      case Nil
      then show ?thesis using "1.prems" by (subst (asm) scan_string.simps) simp
    next
      case (Cons a as)
      show ?thesis
      proof (cases "a = 34")
        case True
        then show ?thesis using "1.prems" Cons by (subst (asm) scan_string.simps) auto
      next
        case False
        from "1.prems" obtain ch rest' t' where
          u: "read_unit x = Some (ch, rest')" and s: "scan_string rest' = Some (t', y)"
          using Cons False
          by (subst (asm) scan_string.simps) (auto split: option.splits)
        have "length y < length rest'" using "1.IH" [OF Cons False u _ s] by simp
        then show ?thesis using unit [OF u] by simp
      qed
    qed
  qed
  have ws: "length (skip_ws x) \<le> length x" for x
    by (simp add: skip_ws_def length_dropWhile_le)
  have "length rest < length s"
  proof -
    from 2 have m: "read_member s = Some (kv, rest)" by simp
    then obtain q s1 k s2 colon s3 q2 s4 v s5 where
      "s = q # s1" "scan_string s1 = Some (k, s2)" "skip_ws s2 = colon # s3"
      "skip_ws s3 = q2 # s4" "scan_string s4 = Some (v, s5)" "rest = skip_ws s5"
      by (auto simp: read_member_def split: list.splits if_splits option.splits)
    then show ?thesis
      using scan [of s1 k s2] scan [of s4 v s5] ws [of s2] ws [of s3] ws [of s5] by simp
  qed
  moreover have "length (skip_ws r) < length rest" using 2 ws [of r] by simp
  ultimately show ?case by simp
qed

declare read_members.simps [simp del]

definition read_object :: "pystr \<Rightarrow> ((pystr \<times> pystr) list \<times> pystr) option" where
  "read_object s =
     (case skip_ws s of
        [] \<Rightarrow> None
      | b # s1 \<Rightarrow>
          if b \<noteq> 123 then None
          else
            (case skip_ws s1 of
               [] \<Rightarrow> None
             | c # r \<Rightarrow> if c = 125 then Some ([], r) else read_members (c # r)))"

definition load_snapshot :: "pystr \<Rightarrow> (pystr \<times> pystr) list option" where
  "load_snapshot s =
     (case read_object s of
        None \<Rightarrow> None
      | Some (kvs, r) \<Rightarrow>
          if skip_ws r = [] then Some (fold (\<lambda>kv. AList.update (fst kv) (snd kv)) kvs [])
          else None)"

text \<open>The metadata snapshot with the given filenames and revision markers.\<close>

definition snapshot_of :: "(pystr \<times> pystr) list \<Rightarrow> json" where
  "snapshot_of kvs = JObj (map (\<lambda>kv. (fst kv, JStr (snd kv))) kvs)"

text \<open>
  An environment whose \<open>json\<close> module is the one above; it is given dicts of strings
  only, and the text of any other value is left empty.
\<close>

fun flat_members :: "(pystr \<times> json) list \<Rightarrow> (pystr \<times> pystr) list option" where
  "flat_members [] = Some []"
| "flat_members ((k, JStr v) # kvs) =
     (case flat_members kvs of None \<Rightarrow> None | Some m \<Rightarrow> Some ((k, v) # m))"
| "flat_members ((k, other) # kvs) = None"

definition dump_strings :: "json \<Rightarrow> pystr" where
  "dump_strings v =
     (case v of
        JObj kvs \<Rightarrow> (case flat_members kvs of Some m \<Rightarrow> dump_snapshot m | None \<Rightarrow> [])
      | _ \<Rightarrow> [])"

definition load_strings :: "pystr \<Rightarrow> exn + json" where
  "load_strings txt =
     (case load_snapshot txt of
        Some m \<Rightarrow> Inr (snapshot_of m)
      | None \<Rightarrow> Inl JSONDecodeError)"

definition json_env :: env where
  "json_env = demo_env\<lparr>json_load := load_strings, json_dump := dump_strings\<rparr>"

text \<open>
  The two surrogates of U+1F600 as two code points of a \<open>str\<close>, and U+1F600 itself.
\<close>

definition grin_pair :: pystr where
  "grin_pair = [55357, 56832]"

definition grin :: pystr where
  "grin = [128512]"

text \<open>
  The code points of a \<open>str\<close>, and the strings in which no high surrogate is immediately
  followed by a low surrogate.
\<close>

definition is_code_point :: "nat \<Rightarrow> bool" where
  "is_code_point c \<longleftrightarrow> c \<le> 1114111"

fun no_surrogate_pair :: "pystr \<Rightarrow> bool" where
  "no_surrogate_pair (a # b # cs) =
     (\<not> (is_high_surrogate a \<and> is_low_surrogate b) \<and> no_surrogate_pair (b # cs))"
| "no_surrogate_pair s = True"

definition plain_text :: "pystr \<Rightarrow> bool" where
  "plain_text s \<longleftrightarrow> list_all is_code_point s \<and> no_surrogate_pair s"

text \<open>The text after an escape does not start with the escape of a low surrogate.\<close>

definition no_low_escape :: "pystr \<Rightarrow> bool" where
  "no_low_escape rest =
     (case rest of
        a # b # after \<Rightarrow>
          a = 92 \<and> b = 117 \<longrightarrow>
            (\<exists>u r. read_hex4 after = Some (u, r) \<and> \<not> is_low_surrogate u)
      | _ \<Rightarrow> True)"

section \<open>Properties\<close>

subsection \<open>Name normaliser\<close>

lemma not_space_underscore: "\<not> is_space 95" by (simp add: is_space_def)
lemma keep_not_space_ne: "keep_char c \<Longrightarrow> \<not> is_space c \<Longrightarrow> \<not> is_underscore c"
  by (auto simp: keep_char_def is_az_def is_digit_def is_underscore_def)

lemma set_spaces_to_underscore:
  "set (spaces_to_underscore xs) \<subseteq> insert 95 {c \<in> set xs. \<not> is_space c}"
proof (induction xs rule: spaces_to_underscore.induct)
  case 1 show ?case by simp
next
  case (2 c cs)
  show ?case
  proof (cases "is_space c")
    case True
    have "set (dropWhile is_space cs) \<subseteq> set cs" by (rule set_dropWhileD [THEN subsetI])
    then show ?thesis using 2(1) [OF True] True by auto
  next
    case False
    then show ?thesis using 2(2) [OF False] by auto
  qed
qed

lemma rstrip_prefix: "prefix (rstrip P s) s"
  using suffix_dropWhile [of P "rev s"] by (simp add: rstrip_def suffix_to_prefix)

lemma lstrip_suffix: "suffix (lstrip P s) s"
  by (simp add: lstrip_def suffix_dropWhile)

lemma set_strip: "set (strip P s) \<subseteq> set s"
proof -
  have "set (rstrip P (lstrip P s)) \<subseteq> set (lstrip P s)" by (rule set_mono_prefix [OF rstrip_prefix])
  moreover have "set (lstrip P s) \<subseteq> set s" by (rule set_mono_suffix [OF lstrip_suffix])
  ultimately show ?thesis by (simp add: strip_def)
qed

lemma rstrip_last: "rstrip P s \<noteq> [] \<Longrightarrow> \<not> P (last (rstrip P s))"
  by (simp add: rstrip_def last_rev hd_dropWhile)

lemma strip_hd: "strip P s \<noteq> [] \<Longrightarrow> \<not> P (hd (strip P s))"
proof -
  assume ne: "strip P s \<noteq> []"
  let ?t = "lstrip P s"
  from rstrip_prefix [of P ?t] obtain zs where t: "?t = rstrip P ?t @ zs" by (auto simp: prefix_def)
  from ne have ne': "rstrip P ?t \<noteq> []" by (simp add: strip_def)
  then have "?t \<noteq> []" using t by auto
  then have "\<not> P (hd ?t)" by (simp add: lstrip_def hd_dropWhile)
  moreover have "hd ?t = hd (rstrip P ?t)" using t ne' by (metis hd_append2)
  ultimately show ?thesis by (simp add: strip_def)
qed

lemma strip_last: "strip P s \<noteq> [] \<Longrightarrow> \<not> P (last (strip P s))"
  by (simp add: strip_def rstrip_last)

lemma spaces_to_underscore_word:
  "spaces_to_underscore xs =
     takeWhile (\<lambda>x. \<not> is_space x) xs @ spaces_to_underscore (dropWhile (\<lambda>x. \<not> is_space x) xs)"
  by (induction xs) simp_all

lemma spaces_to_underscore_run:
  "xs \<noteq> [] \<Longrightarrow> is_space (hd xs) \<Longrightarrow>
     spaces_to_underscore xs = 95 # spaces_to_underscore (dropWhile is_space xs)"
  by (cases xs) simp_all

lemma rstrip_append_keep:
  "rstrip P b \<noteq> [] \<Longrightarrow> rstrip P (a @ b) = a @ rstrip P b"
proof -
  assume "rstrip P b \<noteq> []"
  then have "dropWhile P (rev b) \<noteq> []" by (simp add: rstrip_def)
  then obtain x where "x \<in> set (rev b)" "\<not> P x" by (auto simp: dropWhile_eq_Nil_conv)
  then have "dropWhile P (rev b @ rev a) = dropWhile P (rev b) @ rev a"
    by (rule dropWhile_append1)
  then show ?thesis by (simp add: rstrip_def)
qed

lemma rstrip_id: "s \<noteq> [] \<Longrightarrow> \<not> P (last s) \<Longrightarrow> rstrip P s = s"
proof -
  assume "s \<noteq> []" "\<not> P (last s)"
  then have "rev s \<noteq> []" "\<not> P (hd (rev s))" by (simp_all add: hd_rev)
  then have "dropWhile P (rev s) = rev s" by (cases "rev s") simp_all
  then show ?thesis by (simp add: rstrip_def)
qed

lemma rstrip_snoc: "P x \<Longrightarrow> rstrip P (s @ [x]) = rstrip P s"
  by (simp add: rstrip_def)

lemma rstrip_Nil: "rstrip P [] = []"
  by (simp add: rstrip_def)

lemma join_underscore_ne: "w \<noteq> [] \<Longrightarrow> join_underscore (w # ws) \<noteq> []"
  by (cases ws) simp_all

lemma join_underscore_Cons:
  "ws \<noteq> [] \<Longrightarrow> join_underscore (w # ws) = w @ 95 # join_underscore ws"
  by (cases ws) simp_all

lemma split_ws_Nil: "dropWhile is_space s = [] \<Longrightarrow> split_ws s = []"
  by (simp only: split_ws.simps [of s] list.case)

lemma split_ws_Cons:
  "dropWhile is_space s = c # cs \<Longrightarrow>
     split_ws s = takeWhile (\<lambda>x. \<not> is_space x) (c # cs) # split_ws (dropWhile (\<lambda>x. \<not> is_space x) cs)"
  by (simp only: split_ws.simps [of s] list.case)

lemma words_of_collapsed:
  "\<forall>c \<in> set u. keep_char c \<Longrightarrow>
     rstrip is_underscore (spaces_to_underscore (dropWhile is_space u)) = join_underscore (split_ws u)"
proof (induction u rule: split_ws.induct)
  case (1 s)
  show ?case
  proof (cases "dropWhile is_space s")
    case Nil
    then have "split_ws s = []" by (rule split_ws_Nil)
    then show ?thesis using Nil by (simp only: rstrip_Nil spaces_to_underscore.simps join_underscore.simps)
  next
    case (Cons c cs)
    define w where "w = takeWhile (\<lambda>x. \<not> is_space x) (c # cs)"
    define rest where "rest = dropWhile (\<lambda>x. \<not> is_space x) cs"
    define X where "X = spaces_to_underscore (dropWhile is_space rest)"
    have c: "\<not> is_space c" using hd_dropWhile [of is_space s] Cons by simp
    have sub: "set (c # cs) \<subseteq> set s" using set_dropWhileD [of _ is_space s] Cons by auto
    have keep_s: "\<And>x. x \<in> set (c # cs) \<Longrightarrow> keep_char x" using sub 1(2) by blast
    have w_ne: "w \<noteq> []" using c by (simp add: w_def)
    have w_chars: "\<And>x. x \<in> set w \<Longrightarrow> \<not> is_underscore x"
    proof -
      fix x assume x: "x \<in> set w"
      then have "x \<in> set (c # cs)" "\<not> is_space x" unfolding w_def by (auto dest: set_takeWhileD)
      then show "\<not> is_underscore x" using keep_s keep_not_space_ne by blast
    qed
    have w_last: "\<not> is_underscore (last w)" using w_ne w_chars last_in_set by blast
    have rest_drop: "dropWhile (\<lambda>x. \<not> is_space x) (c # cs) = rest" using c by (simp add: rest_def)
    have split: "spaces_to_underscore (c # cs) = w @ spaces_to_underscore rest"
      using spaces_to_underscore_word [of "c # cs"] by (simp only: rest_drop w_def)
    have keep_rest: "\<forall>x \<in> set rest. keep_char x"
      using keep_s by (auto simp: rest_def dest: set_dropWhileD)
    have IH: "rstrip is_underscore X = join_underscore (split_ws rest)"
      using 1(1) [OF Cons] keep_rest by (simp only: rest_def X_def)
    have sw: "split_ws s = w # split_ws rest"
      using split_ws_Cons [OF Cons] by (simp only: w_def rest_def)
    have goal: "?thesis \<longleftrightarrow> rstrip is_underscore (w @ spaces_to_underscore rest) = join_underscore (w # split_ws rest)"
      by (simp only: Cons split sw)
    show ?thesis
    proof (cases "rest = []")
      case True
      then have "split_ws rest = []" by (simp add: split_ws_Nil)
      then show ?thesis using True w_ne w_last by (simp add: goal rstrip_id)
    next
      case False
      have sp: "is_space (hd rest)"
        using False hd_dropWhile [of "\<lambda>x. \<not> is_space x" cs] by (simp add: rest_def)
      have run: "spaces_to_underscore rest = 95 # X"
        unfolding X_def using False sp by (rule spaces_to_underscore_run)
      show ?thesis
      proof (cases "dropWhile is_space rest")
        case Nil
        then have "split_ws rest = []" by (rule split_ws_Nil)
        moreover have "X = []" using Nil by (simp only: X_def spaces_to_underscore.simps)
        moreover have "rstrip is_underscore (w @ [95]) = w"
          using w_ne w_last by (simp add: rstrip_snoc rstrip_id is_underscore_def)
        ultimately show ?thesis using run by (simp add: goal)
      next
        case (Cons d ds)
        have d: "\<not> is_space d" using hd_dropWhile [of is_space rest] Cons by simp
        define w' where "w' = takeWhile (\<lambda>x. \<not> is_space x) (d # ds)"
        have w'_ne: "w' \<noteq> []" using d by (simp add: w'_def)
        have sr: "split_ws rest = w' # split_ws (dropWhile (\<lambda>x. \<not> is_space x) ds)"
          using split_ws_Cons [OF Cons] by (simp only: w'_def)
        then have ne: "split_ws rest \<noteq> []" by simp
        have jne: "join_underscore (split_ws rest) \<noteq> []"
          using join_underscore_ne [OF w'_ne] sr by simp
        then have "rstrip is_underscore X \<noteq> []" using IH by simp
        then have "rstrip is_underscore ((w @ [95]) @ X) = (w @ [95]) @ rstrip is_underscore X"
          by (rule rstrip_append_keep)
        then show ?thesis using run IH ne by (simp add: goal join_underscore_Cons)
      qed
    qed
  qed
qed

lemma lstrip_collapsed:
  "\<forall>c \<in> set t. keep_char c \<Longrightarrow>
     lstrip is_underscore (spaces_to_underscore t) = spaces_to_underscore (dropWhile is_space t)"
proof -
  assume keep: "\<forall>c \<in> set t. keep_char c"
  have start: "dropWhile is_underscore (spaces_to_underscore v) = spaces_to_underscore v"
    if "v = [] \<or> \<not> is_space (hd v)" "\<forall>c \<in> set v. keep_char c" for v
  proof (cases v)
    case Nil then show ?thesis by simp
  next
    case (Cons a as)
    then have "\<not> is_space a" "keep_char a" using that by auto
    then show ?thesis using Cons keep_not_space_ne by simp
  qed
  let ?v = "dropWhile is_space t"
  have v1: "?v = [] \<or> \<not> is_space (hd ?v)" using hd_dropWhile [of is_space t] by blast
  have v2: "\<forall>c \<in> set ?v. keep_char c" using keep by (auto dest: set_dropWhileD)
  show ?thesis
  proof (cases t)
    case Nil then show ?thesis by (simp add: lstrip_def)
  next
    case (Cons a as)
    show ?thesis
    proof (cases "is_space a")
      case True
      then have "spaces_to_underscore t = 95 # spaces_to_underscore ?v" using Cons by simp
      then show ?thesis using start [OF v1 v2] by (simp add: lstrip_def is_underscore_def)
    next
      case False
      then have "?v = t" using Cons by simp
      then show ?thesis using start [OF v1 v2] by (simp add: lstrip_def)
    qed
  qed
qed

lemma snake_case_words:
  "snake_case lower s = join_underscore (split_ws (remove_special (lower (strip is_space s))))"
proof -
  let ?t = "remove_special (lower (strip is_space s))"
  have keep: "\<forall>c \<in> set ?t. keep_char c" by (simp add: remove_special_def)
  have "snake_case lower s = rstrip is_underscore (lstrip is_underscore (spaces_to_underscore ?t))"
    by (simp add: snake_case_def strip_def)
  also have "\<dots> = rstrip is_underscore (spaces_to_underscore (dropWhile is_space ?t))"
    using lstrip_collapsed [OF keep] by simp
  also have "\<dots> = join_underscore (split_ws ?t)" using words_of_collapsed [OF keep] .
  finally show ?thesis .
qed

lemma snake_case_charset:
  "set (snake_case lower s) \<subseteq> {c. is_az c \<or> is_digit c \<or> is_underscore c}"
proof -
  let ?t = "remove_special (lower (strip is_space s))"
  have "set (snake_case lower s) \<subseteq> set (spaces_to_underscore ?t)"
    using set_strip by (simp add: snake_case_def)
  also have "\<dots> \<subseteq> insert 95 {c \<in> set ?t. \<not> is_space c}" by (rule set_spaces_to_underscore)
  also have "\<dots> \<subseteq> {c. is_az c \<or> is_digit c \<or> is_underscore c}"
    by (auto simp: remove_special_def keep_char_def is_underscore_def)
  finally show ?thesis .
qed

lemma snake_case_edges:
  "\<not> prefix [95] (snake_case lower s) \<and> \<not> suffix [95] (snake_case lower s)"
proof -
  let ?t = "spaces_to_underscore (remove_special (lower (strip is_space s)))"
  have r: "snake_case lower s = strip is_underscore ?t" by (simp add: snake_case_def)
  have "\<not> prefix [95] (strip is_underscore ?t)"
  proof
    assume "prefix [95] (strip is_underscore ?t)"
    then obtain zs where z: "strip is_underscore ?t = 95 # zs" by (auto simp: prefix_def)
    then have "strip is_underscore ?t \<noteq> []" by simp
    then have "\<not> is_underscore (hd (strip is_underscore ?t))" by (rule strip_hd)
    then show False using z by (simp add: is_underscore_def)
  qed
  moreover have "\<not> suffix [95] (strip is_underscore ?t)"
  proof
    assume "suffix [95] (strip is_underscore ?t)"
    then obtain zs where z: "strip is_underscore ?t = zs @ [95]" by (auto simp: suffix_def)
    then have "strip is_underscore ?t \<noteq> []" by simp
    then have "\<not> is_underscore (last (strip is_underscore ?t))" by (rule strip_last)
    then show False using z by (simp add: is_underscore_def)
  qed
  ultimately show ?thesis using r by simp
qed

text \<open>
  Claim C7. \<open>snake_case\<close> is a total function of its input string (its two scans are
  defined by terminating recursion, and no step can raise). Whatever the input and
  whatever \<open>str.lower\<close> does, the result holds only the letters \<open>a\<close> to \<open>z\<close>, digits
  and underscores, it neither starts nor ends with an underscore, and it is exactly the
  whitespace-separated words of the lowered, cleaned string joined by single
  underscores: whitespace that becomes adjacent once the characters between are removed
  is one run and gives one underscore.
\<close>

theorem snake_case_normalised:
  "set (snake_case lower s) \<subseteq> {c. is_az c \<or> is_digit c \<or> is_underscore c} \<and>
   \<not> prefix [95] (snake_case lower s) \<and>
   \<not> suffix [95] (snake_case lower s) \<and>
   snake_case lower s =
     join_underscore (split_ws (remove_special (lower (strip is_space s))))"
  using snake_case_charset [of lower s] snake_case_edges [of lower s]
    snake_case_words [of lower s]
  by blast

theorem snake_case_normalised_witness:
  "snake_case ascii_lower (ustr ''  Patient - Survey  Score! '') = ustr ''patient_survey_score'' \<and>
   join_underscore (split_ws (remove_special (ascii_lower (strip is_space
     (ustr ''  Patient - Survey  Score! ''))))) = ustr ''patient_survey_score''"
proof -
  have computed: "snake_case ascii_lower (ustr ''  Patient - Survey  Score! '')
      = ustr ''patient_survey_score''"
    by (simp add: snake_case_def ustr_def strip_def lstrip_def rstrip_def is_space_def
        remove_special_def keep_char_def is_az_def is_digit_def is_underscore_def
        ascii_lower_def)
  show ?thesis
    using snake_case_normalised [of ascii_lower "ustr ''  Patient - Survey  Score! ''"] computed
    by simp
qed

subsection \<open>Evaluating concrete runs\<close>

lemmas run_defs =
  has_title_def well_formed_def derived_name_def modified_of_def takes_skip_branch_def
  download_and_process_def download_url_of_def path_name_def unchanged_def try_block_def
  read_csv_def to_csv_def mkdir_def load_metadata_def save_metadata_def
  fetch_hospital_datasets_def is_hospital_def main_def metadata_file_def
  demo_env_def descriptor_def untitled_descriptor_def catalog_with_untitled_def disk_with_def
  normalised_a_text_def snapshot_a_def url_a_def url_b_def url_a_mirror_def table_a_def
  fresh_disk_def last_segment_def plain_csv_def dump_flat_def load_known_def ustr_def
  themed_def unthemed_def theme_catalog_def same_name_catalog_def two_file_catalog_def
  a_down_env_def disk_after_def snapshot_ab_def served_a_def text_lines_def
  is_integer_cell_def integer_text_def retype_column_def pandas_parse_def
  snake_case_def strip_def lstrip_def rstrip_def is_space_def remove_special_def keep_char_def
  is_az_def is_digit_def is_underscore_def ascii_lower_def

subsection \<open>The processor, case by case\<close>

lemma py_eq_refl: "py_eq a a"
proof (induction a)
  case (JArr xs)
  then show ?case by (simp add: list_all2_same)
next
  case (JObj kvs)
  have "rel_option py_eq (map_of kvs k) (map_of kvs k)" for k
  proof (cases "map_of kvs k")
    case None
    then show ?thesis by simp
  next
    case (Some v)
    then have "(k, v) \<in> set kvs" by (rule map_of_SomeD)
    then have "py_eq v v" using JObj by force
    then show ?thesis using Some by simp
  qed
  then show ?case by (simp add: list_all_iff)
qed simp_all

lemma has_titleD: "has_title d \<Longrightarrow> \<exists>kvs t. d = JObj kvs \<and> map_of kvs (ustr ''title'') = Some t"
  by (cases d) (auto simp: has_title_def split: option.splits)

lemma has_title_getitem: "has_title d \<Longrightarrow> \<exists>t. py_getitem d (ustr ''title'') = Inr t"
  by (cases "py_getitem d (ustr ''title'')") (auto simp: has_title_def)

lemma has_title_modified: "has_title d \<Longrightarrow> py_get d (ustr ''modified'') JNull = Inr (modified_of d)"
  by (cases d) (auto simp: has_title_def modified_of_def)

lemma derived_nameD:
  "derived_name E d = Inr n \<Longrightarrow> \<exists>u. download_url_of d = Inr (JStr u) \<and> urlparse_name E u = Inr n"
  by (auto simp: derived_name_def path_name_def split: sum.splits json.splits if_splits)

lemma derived_nameI:
  "download_url_of d = Inr (JStr u) \<Longrightarrow> derived_name E d = urlparse_name E u"
  by (simp add: derived_name_def path_name_def)

lemma process_well_formed:
  assumes "has_title d" and "download_url_of d = Inr (JStr u)" and "urlparse_name E u = Inr n"
  shows "download_and_process E d lm w =
     (case unchanged lm n (modified_of d) of
        Inl e \<Rightarrow> (Inl e, w)
      | Inr skip \<Rightarrow>
          if skip then (Inr None, w)
          else (case try_block E (JStr u) n (modified_of d) w of
                  (Inl e, w1) \<Rightarrow> (Inr None, w1)
                | (Inr r, w1) \<Rightarrow> (Inr (Some r), w1)))"
proof -
  obtain t where "py_getitem d (ustr ''title'') = Inr t" using has_title_getitem [OF assms(1)] by blast
  then show ?thesis
    using has_title_modified [OF assms(1)] assms(2,3)
    by (simp add: download_and_process_def path_name_def)
qed

lemma unchanged_dict:
  "unchanged (JObj snap) n m =
     Inr (case map_of snap n of None \<Rightarrow> False | Some v \<Rightarrow> py_eq v m)"
  by (simp add: unchanged_def split: option.splits)

lemma path_name_Inr: "path_name E u = Inr n \<Longrightarrow> \<exists>s. u = JStr s"
  by (cases u) (auto simp: path_name_def split: if_splits)

lemma process_no_title:
  "\<not> has_title d \<Longrightarrow> \<exists>e. \<forall>E lm w. download_and_process E d lm w = (Inl e, w)"
proof -
  assume "\<not> has_title d"
  then obtain e where "py_getitem d (ustr ''title'') = Inl e"
    by (cases "py_getitem d (ustr ''title'')") (auto simp: has_title_def)
  then have "\<forall>E lm w. download_and_process E d lm w = (Inl e, w)"
    by (simp add: download_and_process_def)
  then show ?thesis by blast
qed

lemma process_no_url:
  assumes "has_title d" and "download_url_of d = Inl e"
  shows "download_and_process E d lm w = (Inl e, w)"
proof -
  obtain t where "py_getitem d (ustr ''title'') = Inr t" using has_title_getitem [OF assms(1)] by blast
  then show ?thesis using has_title_modified [OF assms(1)] assms(2)
    by (simp add: download_and_process_def)
qed

lemma process_no_name:
  assumes "has_title d" and "download_url_of d = Inr u" and "path_name E u = Inl e"
  shows "download_and_process E d lm w = (Inl e, w)"
proof -
  obtain t where "py_getitem d (ustr ''title'') = Inr t" using has_title_getitem [OF assms(1)] by blast
  then show ?thesis using has_title_modified [OF assms(1)] assms(2,3)
    by (simp add: download_and_process_def)
qed

lemma try_block_str:
  "try_block E (JStr u) n m w =
     (case pd_read_csv E u of
        Inl e \<Rightarrow> (Inl e, w\<lparr>fetched := fetched w @ [u]\<rparr>)
      | Inr df \<Rightarrow>
          (case to_csv E (df\<lparr>columns := map (snake_case (str_lower E)) (columns df)\<rparr>) n
                  (w\<lparr>fetched := fetched w @ [u]\<rparr>) of
             (Inl e, w2) \<Rightarrow> (Inl e, w2)
           | (Inr x, w2) \<Rightarrow> (Inr (n, m), w2)))"
  by (simp add: try_block_def read_csv_def split: sum.splits)

lemma to_csv_cases:
  "to_csv E df n w = (r, w2) \<Longrightarrow>
     (r = Inl OSError \<and> w2 = w) \<or>
     (r = Inr () \<and> dir_exists w \<and> n \<noteq> [] \<and> n \<noteq> ustr ''..'' \<and> disk_fault E n = None \<and>
        w2 = w\<lparr>files := (files w)(n \<mapsto> to_csv_text E df)\<rparr>) \<or>
     (\<exists>k. r = Inl OSError \<and> disk_fault E n = Some (Broken k) \<and>
        w2 = w\<lparr>files := (files w)(n \<mapsto> take k (to_csv_text E df))\<rparr>)"
  by (auto simp: to_csv_def split: if_splits option.splits wfault.splits)

lemma process_cases:
  assumes "download_and_process E d lm w = (r, w1)"
  shows "(\<exists>e. r = Inl e \<and> w1 = w) \<or>
         (r = Inr None \<and> w1 = w \<and> well_formed E d \<and> takes_skip_branch E d lm) \<or>
         (\<exists>u n. has_title d \<and> download_url_of d = Inr (JStr u) \<and> urlparse_name E u = Inr n \<and>
            unchanged lm n (modified_of d) = Inr False \<and>
            (\<exists>t. try_block E (JStr u) n (modified_of d) w = (t, w1) \<and>
                 r = (case t of Inl e \<Rightarrow> Inr None | Inr p \<Rightarrow> Inr (Some p))))"
proof (cases "has_title d")
  case False
  then obtain e where "download_and_process E d lm w = (Inl e, w)"
    using process_no_title [OF False] by blast
  then show ?thesis using assms by simp
next
  case True
  show ?thesis
  proof (cases "download_url_of d")
    case (Inl e)
    then show ?thesis using process_no_url [OF True Inl, of E lm w] assms by simp
  next
    case (Inr u)
    show ?thesis
    proof (cases "path_name E u")
      case (Inl e)
      then show ?thesis using process_no_name [OF True Inr Inl, of lm w] assms by simp
    next
      case name: (Inr n)
      then obtain s where s: "u = JStr s" using path_name_Inr by blast
      then have un: "urlparse_name E s = Inr n" using name by (simp add: path_name_def)
      have url: "download_url_of d = Inr (JStr s)" using Inr s by simp
      have dn: "derived_name E d = Inr n" using derived_nameI [OF url] un by simp
      note eq = process_well_formed [OF True url un, of lm w]
      show ?thesis
      proof (cases "unchanged lm n (modified_of d)")
        case (Inl e)
        then show ?thesis using eq assms by simp
      next
        case skip: (Inr b)
        show ?thesis
        proof (cases b)
          case True
          then have "takes_skip_branch E d lm" using skip dn by (simp add: takes_skip_branch_def)
          moreover have "well_formed E d" using \<open>has_title d\<close> dn by (simp add: well_formed_def)
          ultimately show ?thesis using eq assms skip True by simp
        next
          case False
          then have "unchanged lm n (modified_of d) = Inr False" using skip by simp
          then show ?thesis using eq assms \<open>has_title d\<close> url un
            by (auto split: prod.splits sum.splits)
        qed
      qed
    qed
  qed
qed

lemma try_block_frame:
  assumes "try_block E (JStr u) n m w = (t, w1)"
  shows "saved w1 = saved w \<and> dir_exists w1 = dir_exists w \<and> fetched w1 = fetched w @ [u]"
proof (cases "pd_read_csv E u")
  case (Inl e)
  then show ?thesis using assms by (auto simp: try_block_str)
next
  case (Inr df)
  let ?df = "df\<lparr>columns := map (snake_case (str_lower E)) (columns df)\<rparr>"
  let ?w = "w\<lparr>fetched := fetched w @ [u]\<rparr>"
  obtain r w2 where tc: "to_csv E ?df n ?w = (r, w2)" by (cases "to_csv E ?df n ?w")
  then have "w1 = w2" using assms Inr by (cases r) (simp_all add: try_block_str)
  then show ?thesis using to_csv_cases [OF tc] by auto
qed

lemma process_frame:
  assumes "download_and_process E d lm w = (r, w1)"
  shows "saved w1 = saved w \<and> dir_exists w1 = dir_exists w"
  using process_cases [OF assms] try_block_frame by (elim disjE exE conjE) auto

lemma run_pool_frame:
  "run_pool E ds lm w = (rs, w1) \<Longrightarrow> saved w1 = saved w \<and> dir_exists w1 = dir_exists w"
proof (induction ds arbitrary: w rs)
  case Nil
  then show ?case by simp
next
  case (Cons d ds)
  obtain r wa where a: "download_and_process E d lm w = (r, wa)"
    by (cases "download_and_process E d lm w")
  obtain rs' wb where b: "run_pool E ds lm wa = (rs', wb)" by (cases "run_pool E ds lm wa")
  have "w1 = wb" using Cons.prems a b by simp
  then have b': "run_pool E ds lm wa = (rs', w1)" using b by simp
  show ?case using process_frame [OF a] Cons.IH [OF b'] by simp
qed

lemma main_unfold:
  assumes "load_metadata E (mkdir w) = Inr lm" and "py_copy lm = Inr up"
      and "fetch_hospital_datasets E = Inr ds" and "run_pool E ds lm (mkdir w) = (rs, w1)"
  shows "main E w =
     (case collect rs up of Inl e \<Rightarrow> (Inl e, w1) | Inr u \<Rightarrow> (Inr (), save_metadata E u w1))"
  using assms by (simp add: main_def Let_def)

lemma run_pool_raises:
  assumes "\<forall>lm w'. download_and_process E d lm w' = (Inl e, w')" and "d \<in> set ds"
  shows "Inl e \<in> set (fst (run_pool E ds lm w))"
  using assms(2)
proof (induction ds arbitrary: w)
  case Nil
  then show ?case by simp
next
  case (Cons a ds)
  obtain r wa where a: "download_and_process E a lm w = (r, wa)"
    by (cases "download_and_process E a lm w")
  obtain rs' wb where b: "run_pool E ds lm wa = (rs', wb)" by (cases "run_pool E ds lm wa")
  show ?case
  proof (cases "d = a")
    case True
    then have "r = Inl e" using a assms(1) by simp
    then show ?thesis using a b by simp
  next
    case False
    then have "d \<in> set ds" using Cons.prems by simp
    then have "Inl e \<in> set (fst (run_pool E ds lm wa))" by (rule Cons.IH)
    then show ?thesis using a b by simp
  qed
qed

lemma collect_raises: "Inl e \<in> set rs \<Longrightarrow> \<exists>e'. collect rs up = Inl e'"
proof (induction rs arbitrary: up)
  case Nil
  then show ?case by simp
next
  case (Cons r rs)
  show ?case
  proof (cases r)
    case (Inl x)
    then show ?thesis by simp
  next
    case (Inr x)
    then have "Inl e \<in> set rs" using Cons.prems by auto
    then show ?thesis using Cons.IH Inr by (auto split: option.splits sum.splits)
  qed
qed

lemma raises_before_try:
  assumes "\<not> has_title d \<or> (\<exists>u. download_url_of d = Inr u \<and> (\<forall>s. u \<noteq> JStr s))"
  shows "\<exists>e. \<forall>E lm w. download_and_process E d lm w = (Inl e, w)"
proof (cases "has_title d")
  case False
  then show ?thesis by (rule process_no_title)
next
  case True
  then obtain u where u: "download_url_of d = Inr u" "\<forall>s. u \<noteq> JStr s" using assms by blast
  define e where "e = (if truthy u then AttributeError else TypeError)"
  have "path_name E u = Inl e" for E using u(2) by (cases u) (simp_all add: path_name_def e_def)
  then have "\<forall>E lm w. download_and_process E d lm w = (Inl e, w)"
    using process_no_name [OF True u(1)] by blast
  then show ?thesis by blast
qed

lemma process_skip:
  assumes "has_title dataset"
      and "derived_name E dataset = Inr name"
      and "map_of snapshot name = Some (modified_of dataset)"
  shows "download_and_process E dataset (JObj snapshot) w = (Inr None, w)"
proof -
  obtain u where u: "download_url_of dataset = Inr (JStr u)" "urlparse_name E u = Inr name"
    using derived_nameD [OF assms(2)] by blast
  have "unchanged (JObj snapshot) name (modified_of dataset) = Inr True"
    using assms(3) by (simp add: unchanged_dict py_eq_refl)
  then show ?thesis using process_well_formed [OF assms(1) u] by simp
qed

lemma to_csv_result:
  "dir_exists w = dir_exists w' \<Longrightarrow> fst (to_csv E df n w) = fst (to_csv E df n w')"
  by (simp add: to_csv_def split: option.splits wfault.splits)

lemma try_block_fst:
  "fst (try_block E (JStr u) n m w) =
     (case pd_read_csv E u of
        Inl e \<Rightarrow> Inl e
      | Inr df \<Rightarrow>
          (case fst (to_csv E (df\<lparr>columns := map (snake_case (str_lower E)) (columns df)\<rparr>) n
                      (w\<lparr>fetched := fetched w @ [u]\<rparr>)) of
             Inl e \<Rightarrow> Inl e
           | Inr x \<Rightarrow> Inr (n, m)))"
proof (cases "pd_read_csv E u")
  case (Inl e)
  then show ?thesis by (simp add: try_block_str)
next
  case (Inr df)
  let ?c = "to_csv E (df\<lparr>columns := map (snake_case (str_lower E)) (columns df)\<rparr>) n
              (w\<lparr>fetched := fetched w @ [u]\<rparr>)"
  obtain r w2 where c: "?c = (r, w2)" by (cases ?c)
  show ?thesis using Inr c by (cases r) (simp_all add: try_block_str)
qed

lemma try_block_result:
  assumes "dir_exists w = dir_exists w'"
  shows "fst (try_block E (JStr u) n m w) = fst (try_block E (JStr u) n m w')"
proof -
  have eq: "fst (to_csv E df n (w\<lparr>fetched := fetched w @ [u]\<rparr>))
      = fst (to_csv E df n (w'\<lparr>fetched := fetched w' @ [u]\<rparr>))" for df
    using assms by (intro to_csv_result) simp
  show ?thesis by (cases "pd_read_csv E u") (simp_all add: try_block_fst eq)
qed

lemma process_result_of_try:
  assumes "has_title d" and "download_url_of d = Inr (JStr u)" and "urlparse_name E u = Inr n"
      and "unchanged lm n (modified_of d) = Inr False"
  shows "fst (download_and_process E d lm w) =
           (case fst (try_block E (JStr u) n (modified_of d) w) of
              Inl e \<Rightarrow> Inr None | Inr p \<Rightarrow> Inr (Some p))"
  using process_well_formed [OF assms(1-3), of lm w] assms(4)
  by (simp split: prod.splits sum.splits)

lemma process_result:
  assumes "dir_exists w = dir_exists w'"
  shows "fst (download_and_process E d lm w) = fst (download_and_process E d lm w')"
proof (cases "has_title d")
  case False
  then obtain e where "\<forall>E lm w. download_and_process E d lm w = (Inl e, w)"
    using process_no_title by blast
  then show ?thesis by simp
next
  case True
  show ?thesis
  proof (cases "download_url_of d")
    case (Inl e)
    then show ?thesis using process_no_url [OF True Inl] by simp
  next
    case (Inr u)
    show ?thesis
    proof (cases "path_name E u")
      case (Inl e)
      then show ?thesis using process_no_name [OF True Inr Inl] by simp
    next
      case name: (Inr n)
      then obtain s where s: "u = JStr s" using path_name_Inr by blast
      then have un: "urlparse_name E s = Inr n" using name by (simp add: path_name_def)
      have url: "download_url_of d = Inr (JStr s)" using Inr s by simp
      show ?thesis
      proof (cases "unchanged lm n (modified_of d)")
        case (Inl e)
        then show ?thesis using process_well_formed [OF True url un, of lm] by simp
      next
        case skip: (Inr b)
        show ?thesis
        proof (cases b)
          case True
          then show ?thesis using process_well_formed [OF \<open>has_title d\<close> url un, of lm] skip by simp
        next
          case False
          then have f: "unchanged lm n (modified_of d) = Inr False" using skip by simp
          show ?thesis
            using process_result_of_try [OF \<open>has_title d\<close> url un f]
              try_block_result [OF assms, of E s n "modified_of d"]
            by simp
        qed
      qed
    qed
  qed
qed

lemma run_pool_results:
  "fst (run_pool E ds lm w) = map (\<lambda>d. fst (download_and_process E d lm w)) ds"
proof (induction ds arbitrary: w)
  case Nil
  then show ?case by simp
next
  case (Cons d ds)
  obtain r wa where a: "download_and_process E d lm w = (r, wa)"
    by (cases "download_and_process E d lm w")
  obtain rs wb where b: "run_pool E ds lm wa = (rs, wb)" by (cases "run_pool E ds lm wa")
  have "dir_exists wa = dir_exists w" using process_frame [OF a] by simp
  then have "\<And>x. fst (download_and_process E x lm wa) = fst (download_and_process E x lm w)"
    by (rule process_result)
  then have "rs = map (\<lambda>d. fst (download_and_process E d lm w)) ds"
    using Cons.IH [of wa] b by simp
  then show ?case using a b by simp
qed

lemma process_never_raises:
  assumes "well_formed E d"
  shows "\<exists>x. fst (download_and_process E d (JObj snap) w) = Inr x"
proof -
  have t: "has_title d" using assms by (simp add: well_formed_def)
  obtain n where "derived_name E d = Inr n"
    using assms by (cases "derived_name E d") (simp_all add: well_formed_def)
  then obtain u where u: "download_url_of d = Inr (JStr u)" "urlparse_name E u = Inr n"
    using derived_nameD by blast
  show ?thesis
    using process_well_formed [OF t u, of "JObj snap" w]
    by (simp add: unchanged_dict split: prod.splits sum.splits)
qed

lemma try_block_pair: "try_block E (JStr u) n m w = (Inr p, w1) \<Longrightarrow> p = (n, m)"
  by (auto simp: try_block_str split: sum.splits prod.splits)

lemma process_pair:
  assumes "fst (download_and_process E d lm w) = Inr (Some (n, m))"
  shows "has_title d \<and> derived_name E d = Inr n \<and> m = modified_of d"
proof -
  obtain w1 where r: "download_and_process E d lm w = (Inr (Some (n, m)), w1)"
    using assms by (cases "download_and_process E d lm w") simp
  from process_cases [OF r] show ?thesis
  proof (elim disjE exE conjE, goal_cases)
    case (1 e)
    then show ?case by simp
  next
    case 2
    then show ?case by simp
  next
    case (3 u n' t)
    then obtain p where p: "t = Inr p" "p = (n, m)" by (cases t) auto
    then have "(n, m) = (n', modified_of d)" using try_block_pair [of E u n' "modified_of d" w p w1] 3 by simp
    then show ?case using 3 derived_nameI [of d u E] by simp
  qed
qed

lemma failed_download_no_result:
  assumes "well_formed E d" and "download_url_of d = Inr (JStr u)" and "isl (pd_read_csv E u)"
  shows "fst (download_and_process E d (JObj snap) w) = Inr None"
proof -
  have t: "has_title d" using assms(1) by (simp add: well_formed_def)
  obtain n where "urlparse_name E u = Inr n"
    using assms(1,2) by (cases "urlparse_name E u") (simp_all add: well_formed_def derived_nameI)
  then show ?thesis
    using process_well_formed [OF t assms(2), of E n "JObj snap" w] assms(3)
    by (cases "pd_read_csv E u") (simp_all add: unchanged_dict try_block_str)
qed

lemma failed_write_no_result:
  assumes "well_formed E d" and "derived_name E d = Inr n"
      and "n = [] \<or> n = ustr ''..'' \<or> disk_fault E n \<noteq> None"
  shows "fst (download_and_process E d (JObj snap) w) = Inr None"
proof -
  have t: "has_title d" using assms(1) by (simp add: well_formed_def)
  obtain u where u: "download_url_of d = Inr (JStr u)" "urlparse_name E u = Inr n"
    using derived_nameD [OF assms(2)] by blast
  have ne: "fst (to_csv E df n w') \<noteq> Inr ()" for df w'
    using assms(3) by (auto simp: to_csv_def split: option.splits wfault.splits)
  have csv: "\<exists>e. fst (to_csv E df n w') = Inl e" for df w'
    using ne [of df w'] by (cases "fst (to_csv E df n w')") auto
  have "\<exists>e. fst (try_block E (JStr u) n m w') = Inl e" for m w'
  proof (cases "pd_read_csv E u")
    case (Inl e)
    then show ?thesis by (simp add: try_block_fst)
  next
    case (Inr df)
    obtain e where "fst (to_csv E (df\<lparr>columns := map (snake_case (str_lower E)) (columns df)\<rparr>) n
                      (w'\<lparr>fetched := fetched w' @ [u]\<rparr>)) = Inl e"
      using csv by blast
    then show ?thesis using Inr by (simp add: try_block_fst)
  qed
  then obtain e where e: "fst (try_block E (JStr u) n (modified_of d) w) = Inl e" by blast
  obtain b where b: "unchanged (JObj snap) n (modified_of d) = Inr b" by (simp add: unchanged_dict)
  show ?thesis
  proof (cases b)
    case True
    then show ?thesis using process_well_formed [OF t u, of "JObj snap" w] b by simp
  next
    case False
    then have "unchanged (JObj snap) n (modified_of d) = Inr False" using b by simp
    then show ?thesis using process_result_of_try [OF t u] e by simp
  qed
qed

lemma collect_all_returned:
  "\<forall>r \<in> set rs. \<not> isl r \<Longrightarrow>
     collect rs (JObj snap) =
       Inr (JObj (fold (\<lambda>p. AList.update (fst p) (snd p)) (successes rs) snap))"
proof (induction rs arbitrary: snap)
  case Nil
  then show ?case by simp
next
  case (Cons r rs)
  then obtain x where x: "r = Inr x" by (cases r) auto
  show ?case
  proof (cases x)
    case None
    then show ?thesis using Cons x by simp
  next
    case (Some p)
    then show ?thesis using Cons x by (cases p) simp
  qed
qed

lemma map_of_fold_update:
  "map_of (fold (\<lambda>p. AList.update (fst p) (snd p)) ps snap) k =
     (case map_of (rev ps) k of Some v \<Rightarrow> Some v | None \<Rightarrow> map_of snap k)"
proof (induction ps arbitrary: snap)
  case Nil
  then show ?case by simp
next
  case (Cons p ps)
  show ?case
    by (simp add: Cons.IH update_conv' map_add_def split: option.splits)
qed

lemma successes_mem:
  "(p \<in> set (successes rs)) = (Inr (Some p) \<in> set rs)"
  by (induction rs rule: successes.induct) auto


lemma run_completes:
  assumes load: "load_metadata E (mkdir w) = Inr (JObj snapshot)"
      and fetch: "fetch_hospital_datasets E = Inr datasets"
      and wf: "\<forall>d \<in> set datasets. well_formed E d"
  defines "rs \<equiv> fst (run_pool E datasets (JObj snapshot) (mkdir w))"
  defines "final \<equiv> fold (\<lambda>p. AList.update (fst p) (snd p)) (successes rs) snapshot"
  shows "main E w =
           (Inr (), save_metadata E (JObj final) (snd (run_pool E datasets (JObj snapshot) (mkdir w))))"
    and "saved (snd (main E w)) = saved w @ [JObj final]"
    and "files (snd (main E w)) metadata_file = Some (json_dump E (JObj final))"
proof -
  let ?rp = "run_pool E datasets (JObj snapshot) (mkdir w)"
  have rs: "rs = map (\<lambda>d. fst (download_and_process E d (JObj snapshot) (mkdir w))) datasets"
    unfolding rs_def by (rule run_pool_results)
  have "\<forall>r \<in> set rs. \<not> isl r"
  proof
    fix r assume "r \<in> set rs"
    then obtain d where "d \<in> set datasets"
      "r = fst (download_and_process E d (JObj snapshot) (mkdir w))"
      using rs by auto
    then show "\<not> isl r" using process_never_raises [of E d snapshot "mkdir w"] wf by auto
  qed
  then have c: "collect rs (JObj snapshot) = Inr (JObj final)"
    unfolding final_def by (rule collect_all_returned)
  have rp: "?rp = (rs, snd ?rp)" by (simp add: rs_def)
  show m: "main E w = (Inr (), save_metadata E (JObj final) (snd ?rp))"
    using main_unfold [OF load _ fetch rp, of "JObj snapshot"] c by simp
  have "saved (snd ?rp) = saved (mkdir w)" using run_pool_frame [OF rp] by simp
  then show "saved (snd (main E w)) = saved w @ [JObj final]"
    using m by (simp add: save_metadata_def mkdir_def)
  show "files (snd (main E w)) metadata_file = Some (json_dump E (JObj final))"
    using m by (simp add: save_metadata_def mkdir_def)
qed

lemma process_fetched:
  assumes "well_formed E d"
  shows "fetched (snd (download_and_process E d (JObj snap) w))
           = fetched w @ attempted_url E (JObj snap) d"
proof -
  have t: "has_title d" using assms by (simp add: well_formed_def)
  obtain n where n: "derived_name E d = Inr n"
    using assms by (cases "derived_name E d") (simp_all add: well_formed_def)
  then obtain u where u: "download_url_of d = Inr (JStr u)" "urlparse_name E u = Inr n"
    using derived_nameD by blast
  obtain b where b: "unchanged (JObj snap) n (modified_of d) = Inr b" by (simp add: unchanged_dict)
  note eq = process_well_formed [OF t u, of "JObj snap" w]
  show ?thesis
  proof (cases b)
    case True
    then have "takes_skip_branch E d (JObj snap)" using n b by (simp add: takes_skip_branch_def)
    then show ?thesis using eq b True u by (simp add: attempted_url_def)
  next
    case False
    then have ns: "\<not> takes_skip_branch E d (JObj snap)" using n b by (simp add: takes_skip_branch_def)
    obtain r w1 where tb: "try_block E (JStr u) n (modified_of d) w = (r, w1)"
      by (cases "try_block E (JStr u) n (modified_of d) w")
    have "fetched w1 = fetched w @ [u]" using try_block_frame [OF tb] by simp
    moreover have "snd (download_and_process E d (JObj snap) w) = w1"
      using eq b False tb by (cases r) simp_all
    ultimately show ?thesis using ns u by (simp add: attempted_url_def)
  qed
qed

lemma run_pool_fetched:
  "\<forall>d \<in> set ds. well_formed E d \<Longrightarrow>
     fetched (snd (run_pool E ds (JObj snap) w))
       = fetched w @ concat (map (attempted_url E (JObj snap)) ds)"
proof (induction ds arbitrary: w)
  case Nil
  then show ?case by simp
next
  case (Cons d ds)
  obtain r wa where a: "download_and_process E d (JObj snap) w = (r, wa)"
    by (cases "download_and_process E d (JObj snap) w")
  obtain rs wb where b: "run_pool E ds (JObj snap) wa = (rs, wb)"
    by (cases "run_pool E ds (JObj snap) wa")
  have "fetched wa = fetched w @ attempted_url E (JObj snap) d"
    using process_fetched [of E d snap w] Cons.prems a by simp
  moreover have "fetched wb = fetched wa @ concat (map (attempted_url E (JObj snap)) ds)"
    using Cons.IH [of wa] Cons.prems b by simp
  ultimately show ?case using a b by simp
qed

lemma process_files:
  assumes "well_formed E d" and "dir_exists w"
  shows "files (snd (download_and_process E d (JObj snap) w))
           = apply_write (item_write E (JObj snap) d) (files w)"
proof -
  have t: "has_title d" using assms by (simp add: well_formed_def)
  obtain n where n: "derived_name E d = Inr n"
    using assms by (cases "derived_name E d") (simp_all add: well_formed_def)
  then obtain u where u: "download_url_of d = Inr (JStr u)" "urlparse_name E u = Inr n"
    using derived_nameD by blast
  obtain b where b: "unchanged (JObj snap) n (modified_of d) = Inr b" by (simp add: unchanged_dict)
  note eq = process_well_formed [OF t u, of "JObj snap" w]
  show ?thesis
  proof (cases b)
    case True
    then have "takes_skip_branch E d (JObj snap)" using n b by (simp add: takes_skip_branch_def)
    then show ?thesis
      using eq b True u by (simp add: attempted_url_def item_write_def apply_write_def)
  next
    case False
    then have ns: "\<not> takes_skip_branch E d (JObj snap)" using n b by (simp add: takes_skip_branch_def)
    have au: "attempted_url E (JObj snap) d = [u]" using ns u by (simp add: attempted_url_def)
    show ?thesis
    proof (cases "pd_read_csv E u")
      case (Inl e)
      then show ?thesis
        using eq b False u au by (simp add: item_write_def apply_write_def try_block_str)
    next
      case (Inr df)
      then show ?thesis
        using eq b False u au assms(2)
        by (simp add: item_write_def apply_write_def try_block_str to_csv_def
            split: option.splits wfault.splits)
    qed
  qed
qed

lemma run_pool_files:
  "\<forall>d \<in> set ds. well_formed E d \<Longrightarrow> dir_exists w \<Longrightarrow>
     files (snd (run_pool E ds (JObj snap) w)) = pool_files E ds (JObj snap) (files w)"
proof (induction ds arbitrary: w)
  case Nil
  then show ?case by (simp add: pool_files_def)
next
  case (Cons d ds)
  obtain r wa where a: "download_and_process E d (JObj snap) w = (r, wa)"
    by (cases "download_and_process E d (JObj snap) w")
  obtain rs wb where b: "run_pool E ds (JObj snap) wa = (rs, wb)"
    by (cases "run_pool E ds (JObj snap) wa")
  have fa: "files wa = apply_write (item_write E (JObj snap) d) (files w)"
    using process_files [of E d w snap] Cons.prems a by simp
  have "dir_exists wa" using process_frame [OF a] Cons.prems by simp
  then have "files wb = pool_files E ds (JObj snap) (files wa)"
    using Cons.IH [of wa] Cons.prems b by simp
  then show ?case using a b fa by (simp add: pool_files_def)
qed

lemma failed_download_no_write:
  assumes "download_url_of d = Inr (JStr u)" and "isl (pd_read_csv E u)"
  shows "item_write E lm d = None"
  using assms
  by (cases "pd_read_csv E u")
    (simp_all add: item_write_def attempted_url_def split: sum.splits)

subsection \<open>Skip when unchanged\<close>

text \<open>
  Claim C1, as amended. For every descriptor that has a title and from which a filename
  is derived, and every prior snapshot that holds that filename with a value equal to
  \<open>dataset.get('modified')\<close>, \<open>download_and_process\<close> returns \<open>None\<close> and leaves
  the disk and both logs exactly as they were: no content is fetched and no output file
  is written. (As stated the claim speaks of every descriptor; the title is read on the
  first line of the function, before the skip check.)
\<close>

theorem skip_when_unchanged:
  assumes "has_title dataset"
      and "derived_name E dataset = Inr name"
      and "map_of snapshot name = Some (modified_of dataset)"
  shows "download_and_process E dataset (JObj snapshot) w = (Inr None, w)"
  using assms by (rule process_skip)

theorem skip_when_unchanged_witness:
  "has_title (descriptor (ustr ''A'') (ustr ''2021-01-01'') url_a) \<and>
   derived_name demo_env (descriptor (ustr ''A'') (ustr ''2021-01-01'') url_a) = Inr (ustr ''a.csv'') \<and>
   map_of [(ustr ''a.csv'', JStr (ustr ''2021-01-01''))] (ustr ''a.csv'')
     = Some (modified_of (descriptor (ustr ''A'') (ustr ''2021-01-01'') url_a)) \<and>
   download_and_process demo_env (descriptor (ustr ''A'') (ustr ''2021-01-01'') url_a)
     (snapshot_a (ustr ''2021-01-01'')) fresh_disk = (Inr None, fresh_disk)"
proof -
  let ?d = "descriptor (ustr ''A'') (ustr ''2021-01-01'') url_a"
  have h1: "has_title ?d" by (simp add: run_defs)
  have h2: "derived_name demo_env ?d = Inr (ustr ''a.csv'')" by (simp add: run_defs)
  have h3: "map_of [(ustr ''a.csv'', JStr (ustr ''2021-01-01''))] (ustr ''a.csv'') = Some (modified_of ?d)"
    by (simp add: run_defs)
  show ?thesis
    using skip_when_unchanged [OF h1 h2 h3, of fresh_disk] h1 h2 h3
    by (simp add: snapshot_a_def)
qed

text \<open>
  The claim as stated fails for a descriptor without a \<open>title\<close> key: the snapshot holds
  the derived filename \<open>a.csv\<close> with the descriptor's timestamp, and the call raises
  \<open>KeyError\<close> instead of returning \<open>None\<close>.
\<close>

theorem skip_without_title_counterexample:
  "derived_name demo_env (untitled_descriptor (ustr ''2021-01-01'') url_a) = Inr (ustr ''a.csv'') \<and>
   modified_of (untitled_descriptor (ustr ''2021-01-01'') url_a) = JStr (ustr ''2021-01-01'') \<and>
   py_getitem (snapshot_a (ustr ''2021-01-01'')) (ustr ''a.csv'') = Inr (JStr (ustr ''2021-01-01'')) \<and>
   fst (download_and_process demo_env (untitled_descriptor (ustr ''2021-01-01'') url_a)
     (snapshot_a (ustr ''2021-01-01'')) fresh_disk) = Inl KeyError"
  by (simp add: run_defs)

subsection \<open>Descriptors that raise before the try statement\<close>

text \<open>
  Claim C3. A descriptor that passed the catalog filter and that lacks the \<open>title\<close> key,
  or whose first \<open>distribution\<close> entry yields a \<open>downloadURL\<close> that is not a string
  (\<open>None\<close> when the key is missing), makes \<open>download_and_process\<close> raise before the
  \<open>try\<close> statement, with the disk untouched. \<open>main\<close> then ends with an exception, the
  run never calls \<open>save_metadata\<close> (the log of saved snapshots is as before), and what
  is left is exactly the disk after all workers ran: the files of the other datasets are
  written, their results are not recorded.
\<close>

theorem malformed_descriptor_aborts_run:
  assumes "fetch_hospital_datasets E = Inr datasets" and "d \<in> set datasets"
      and "\<not> has_title d \<or> (\<exists>u. download_url_of d = Inr u \<and> (\<forall>s. u \<noteq> JStr s))"
  shows "(\<exists>e. \<forall>lm w'. download_and_process E d lm w' = (Inl e, w')) \<and>
         (\<exists>e. fst (main E w) = Inl e) \<and>
         saved (snd (main E w)) = saved w \<and>
         (\<forall>lm up. load_metadata E (mkdir w) = Inr lm \<longrightarrow> py_copy lm = Inr up \<longrightarrow>
            snd (main E w) = snd (run_pool E datasets lm (mkdir w)))"
proof -
  obtain e where e: "\<forall>lm w'. download_and_process E d lm w' = (Inl e, w')"
    using raises_before_try [OF assms(3)] by blast
  have pool: "fst (main E w) = Inl e' \<and> snd (main E w) = snd (run_pool E datasets lm (mkdir w))
      \<and> saved (snd (main E w)) = saved w" if "e' = e' \<and> load_metadata E (mkdir w) = Inr lm \<and> py_copy lm = Inr up \<and>
      collect (fst (run_pool E datasets lm (mkdir w))) up = Inl e'" for lm up e'
  proof -
    obtain rs w1 where rp: "run_pool E datasets lm (mkdir w) = (rs, w1)"
      by (cases "run_pool E datasets lm (mkdir w)")
    have "main E w = (Inl e', w1)" using main_unfold [OF _ _ assms(1) rp, of up] that rp by simp
    moreover have "saved w1 = saved w" using run_pool_frame [OF rp] by (simp add: mkdir_def)
    ultimately show ?thesis using rp by simp
  qed
  have raised: "\<exists>e'. collect (fst (run_pool E datasets lm (mkdir w))) up = Inl e'" for lm up
    using collect_raises [OF run_pool_raises [OF e assms(2)]] .
  have "(\<exists>e. fst (main E w) = Inl e) \<and> saved (snd (main E w)) = saved w"
  proof (cases "load_metadata E (mkdir w)")
    case (Inl x)
    then show ?thesis by (simp add: main_def Let_def mkdir_def)
  next
    case lm: (Inr lm)
    show ?thesis
    proof (cases "py_copy lm")
      case (Inl x)
      then show ?thesis using lm by (simp add: main_def Let_def mkdir_def)
    next
      case (Inr up)
      obtain e' where "collect (fst (run_pool E datasets lm (mkdir w))) up = Inl e'"
        using raised by blast
      then show ?thesis using pool [of e' lm up] lm Inr by blast
    qed
  qed
  moreover have "\<forall>lm up. load_metadata E (mkdir w) = Inr lm \<longrightarrow> py_copy lm = Inr up \<longrightarrow>
            snd (main E w) = snd (run_pool E datasets lm (mkdir w))"
  proof (intro allI impI)
    fix lm up
    assume a: "load_metadata E (mkdir w) = Inr lm" "py_copy lm = Inr up"
    obtain e' where "collect (fst (run_pool E datasets lm (mkdir w))) up = Inl e'"
      using raised by blast
    then show "snd (main E w) = snd (run_pool E datasets lm (mkdir w))"
      using pool [of e' lm up] a by blast
  qed
  ultimately show ?thesis using e by blast
qed

theorem malformed_descriptor_aborts_run_witness:
  "fetch_hospital_datasets (demo_env\<lparr>get_catalog := Inr catalog_with_untitled\<rparr>)
     = Inr [descriptor (ustr ''A'') (ustr ''2021-02-01'') url_a,
            untitled_descriptor (ustr ''2021-02-01'') url_b] \<and>
   \<not> has_title (untitled_descriptor (ustr ''2021-02-01'') url_b) \<and>
   fst (main (demo_env\<lparr>get_catalog := Inr catalog_with_untitled\<rparr>) fresh_disk) = Inl KeyError \<and>
   saved (snd (main (demo_env\<lparr>get_catalog := Inr catalog_with_untitled\<rparr>) fresh_disk)) = [] \<and>
   files (snd (main (demo_env\<lparr>get_catalog := Inr catalog_with_untitled\<rparr>) fresh_disk))
     metadata_file = None \<and>
   files (snd (main (demo_env\<lparr>get_catalog := Inr catalog_with_untitled\<rparr>) fresh_disk))
     (ustr ''a.csv'') = Some normalised_a_text"
proof -
  let ?E = "demo_env\<lparr>get_catalog := Inr catalog_with_untitled\<rparr>"
  let ?good = "descriptor (ustr ''A'') (ustr ''2021-02-01'') url_a"
  let ?bad = "untitled_descriptor (ustr ''2021-02-01'') url_b"
  have h1: "fetch_hospital_datasets ?E = Inr [?good, ?bad]" by (simp add: run_defs)
  have h2: "?bad \<in> set [?good, ?bad]" by simp
  have h3: "\<not> has_title ?bad" by (simp add: run_defs)
  have h3': "\<not> has_title ?bad \<or> (\<exists>u. download_url_of ?bad = Inr u \<and> (\<forall>s. u \<noteq> JStr s))"
    using h3 by simp
  have r1: "fst (main ?E fresh_disk) = Inl KeyError" by (simp add: run_defs)
  have r2: "files (snd (main ?E fresh_disk)) metadata_file = None" by (simp add: run_defs)
  have r3: "files (snd (main ?E fresh_disk)) (ustr ''a.csv'') = Some normalised_a_text" by (simp add: run_defs)
  have "saved (snd (main ?E fresh_disk)) = saved fresh_disk"
    using malformed_descriptor_aborts_run [OF h1 h2 h3', of fresh_disk] by blast
  then have r4: "saved (snd (main ?E fresh_disk)) = []" by (simp add: fresh_disk_def)
  show ?thesis using h1 h3 r1 r2 r3 r4 by blast
qed

subsection \<open>The output file\<close>

text \<open>
  Claim C6, as amended. Whenever \<open>download_and_process\<close> returns a pair
  \<open>(name, modified)\<close>, the file \<open>name\<close> holds what \<open>to_csv\<close> writes for the table
  that \<open>pd.read_csv\<close> built from the download, with every column label of that table
  replaced by its \<open>snake_case\<close>, in the same order, and with the rows of that table
  untouched; no other file changed. The program changes the labels and nothing else;
  the cells are the values \<open>pandas\<close> parsed, printed by \<open>pandas\<close>. (As stated
  the claim compares the file with the source text, row for row.)
\<close>

theorem output_file_is_normalised_table:
  assumes "download_and_process E dataset lm w = (Inr (Some (name, modified)), w1)"
  shows "\<exists>u df. download_url_of dataset = Inr (JStr u) \<and> urlparse_name E u = Inr name \<and>
           pd_read_csv E u = Inr df \<and>
           files w1 name =
             Some (to_csv_text E \<lparr>columns = map (snake_case (str_lower E)) (columns df),
                                  rows = rows df\<rparr>) \<and>
           (\<forall>other. other \<noteq> name \<longrightarrow> files w1 other = files w other)"
proof -
  obtain u n where
    url: "download_url_of dataset = Inr (JStr u)" and un: "urlparse_name E u = Inr n" and
    tb: "try_block E (JStr u) n (modified_of dataset) w = (Inr (name, modified), w1)"
  proof -
    from process_cases [OF assms] show ?thesis
    proof (elim disjE exE conjE, goal_cases)
      case (1 e)
      then show ?case by simp
    next
      case 2
      then show ?case by simp
    next
      case (3 u n t)
      then show ?case using that [of u n] by (cases t) auto
    qed
  qed
  show ?thesis
  proof (cases "pd_read_csv E u")
    case (Inl e)
    then show ?thesis using tb by (simp add: try_block_str)
  next
    case (Inr df)
    let ?df = "df\<lparr>columns := map (snake_case (str_lower E)) (columns df)\<rparr>"
    let ?w = "w\<lparr>fetched := fetched w @ [u]\<rparr>"
    obtain r w2 where tc: "to_csv E ?df n ?w = (r, w2)" by (cases "to_csv E ?df n ?w")
    have "r = Inr () \<and> name = n \<and> w1 = w2" using tb Inr tc by (cases r) (simp_all add: try_block_str)
    then have "w1 = ?w\<lparr>files := (files ?w)(name \<mapsto> to_csv_text E ?df)\<rparr>" and "name = n"
      using to_csv_cases [OF tc] by auto
    moreover have "?df = \<lparr>columns = map (snake_case (str_lower E)) (columns df), rows = rows df\<rparr>"
      by simp
    ultimately show ?thesis using url un Inr by auto
  qed
qed

theorem output_file_is_normalised_table_witness:
  "fst (download_and_process demo_env (descriptor (ustr ''A'') (ustr ''2021-02-01'') url_a)
          (snapshot_a (ustr ''2021-01-01'')) (mkdir fresh_disk))
     = Inr (Some (ustr ''a.csv'', JStr (ustr ''2021-02-01''))) \<and>
   files (snd (download_and_process demo_env (descriptor (ustr ''A'') (ustr ''2021-02-01'') url_a)
          (snapshot_a (ustr ''2021-01-01'')) (mkdir fresh_disk))) (ustr ''a.csv'')
     = Some normalised_a_text \<and>
   files (snd (download_and_process demo_env (descriptor (ustr ''A'') (ustr ''2021-02-01'') url_a)
          (snapshot_a (ustr ''2021-01-01'')) (mkdir fresh_disk))) (ustr ''b.csv'')
     = None"
proof -
  let ?run = "download_and_process demo_env (descriptor (ustr ''A'') (ustr ''2021-02-01'') url_a)
          (snapshot_a (ustr ''2021-01-01'')) (mkdir fresh_disk)"
  have r: "fst ?run = Inr (Some (ustr ''a.csv'', JStr (ustr ''2021-02-01'')))" by (simp add: run_defs)
  then have h: "?run = (Inr (Some (ustr ''a.csv'', JStr (ustr ''2021-02-01''))), snd ?run)"
    by (metis prod.collapse)
  from output_file_is_normalised_table [OF h] obtain u df where
    df: "pd_read_csv demo_env u = Inr df" and
    f: "files (snd ?run) (ustr ''a.csv'') =
          Some (to_csv_text demo_env \<lparr>columns = map (snake_case (str_lower demo_env)) (columns df),
                                        rows = rows df\<rparr>)" and
    o: "\<forall>other. other \<noteq> ustr ''a.csv'' \<longrightarrow> files (snd ?run) other = files (mkdir fresh_disk) other"
    by blast
  have "df = table_a" using df by (simp add: demo_env_def)
  moreover have "to_csv_text demo_env \<lparr>columns = map (snake_case (str_lower demo_env)) (columns table_a),
                                        rows = rows table_a\<rparr> = normalised_a_text"
    by (simp add: run_defs)
  ultimately have "files (snd ?run) (ustr ''a.csv'') = Some normalised_a_text" using f by simp
  moreover have "ustr ''b.csv'' \<noteq> ustr ''a.csv''" by (simp add: run_defs)
  then have "files (snd ?run) (ustr ''b.csv'') = None"
    using o by (simp add: mkdir_def fresh_disk_def)
  ultimately show ?thesis using r by blast
qed

text \<open>
  The claim as stated fails on the served text \<open>served_a\<close>: its data row is
  \<open>010001,4\<close>, \<open>pd.read_csv\<close> holds the table \<open>table_a\<close> for it, and the row
  written to \<open>a.csv\<close> is \<open>10001,4\<close>.
\<close>

theorem retyped_cell_counterexample:
  "pandas_parse served_a = table_a \<and>
   pd_read_csv demo_env url_a = Inr table_a \<and>
   fst (download_and_process demo_env (descriptor (ustr ''A'') (ustr ''2021-02-01'') url_a)
          (snapshot_a (ustr ''2021-01-01'')) (mkdir fresh_disk))
     = Inr (Some (ustr ''a.csv'', JStr (ustr ''2021-02-01''))) \<and>
   files (snd (download_and_process demo_env (descriptor (ustr ''A'') (ustr ''2021-02-01'') url_a)
          (snapshot_a (ustr ''2021-01-01'')) (mkdir fresh_disk))) (ustr ''a.csv'')
     = Some normalised_a_text \<and>
   tl (text_lines served_a) = [ustr ''010001,4''] \<and>
   tl (text_lines normalised_a_text) = [ustr ''10001,4'']"
  by (simp add: run_defs)




subsection \<open>Metadata store\<close>

lemma hex_value_digit: "d < 16 \<Longrightarrow> hex_value (hex_digit d) = Some d"
  by (auto simp: hex_value_def hex_digit_def)

lemma hex4_value:
  assumes "n < 65536"
  shows "4096 * (n div 4096 mod 16) + 256 * (n div 256 mod 16) + 16 * (n div 16 mod 16) + n mod 16
       = (n::nat)"
proof -
  have d2: "n div 16 div 16 = n div 256" by (simp add: div_mult2_eq [symmetric])
  have d3: "n div 256 div 16 = n div 4096" by (simp add: div_mult2_eq [symmetric])
  have top: "n div 4096 mod 16 = n div 4096" using assms by simp
  have a: "n = 16 * (n div 16) + n mod 16" by simp
  have b: "n div 16 = 16 * (n div 256) + n div 16 mod 16"
    using div_mult_mod_eq [of "n div 16" 16] d2 by simp
  have c: "n div 256 = 16 * (n div 4096) + n div 256 mod 16"
    using div_mult_mod_eq [of "n div 256" 16] d3 by simp
  show ?thesis using a b c top by linarith
qed

lemma read_hex4_hex4: "n < 65536 \<Longrightarrow> read_hex4 (hex4 n @ rest) = Some (n, rest)"
  using hex4_value [of n] by (simp add: hex4_def hex_value_digit)


lemma read_u_escape_single:
  assumes "n < 65536" and "is_high_surrogate n \<longrightarrow> no_low_escape rest"
  shows "read_u_escape (hex4 n @ rest) = Some (n, rest)"
proof (cases "is_high_surrogate n")
  case False
  then show ?thesis using read_hex4_hex4 [OF assms(1), of rest]
    by (simp add: read_u_escape_def split: list.splits)
next
  case True
  then have safe: "no_low_escape rest" using assms(2) by simp
  show ?thesis
  proof (cases rest)
    case Nil
    then show ?thesis using read_hex4_hex4 [OF assms(1), of "[]"]
      by (simp add: read_u_escape_def)
  next
    case (Cons a as)
    show ?thesis
    proof (cases as)
      case Nil
      then show ?thesis using Cons by (simp add: read_u_escape_def read_hex4_hex4 [OF assms(1)])
    next
      case inner: (Cons b after)
      show ?thesis
      proof (cases "a = 92 \<and> b = 117")
        case False
        then show ?thesis using Cons inner
          by (auto simp: read_u_escape_def read_hex4_hex4 [OF assms(1)])
      next
        case esc: True
        then obtain u r where "read_hex4 after = Some (u, r)" "\<not> is_low_surrogate u"
          using safe Cons inner by (auto simp: no_low_escape_def)
        then show ?thesis using Cons inner esc True
          by (simp add: read_u_escape_def read_hex4_hex4 [OF assms(1)])
      qed
    qed
  qed
qed

lemma read_u_escape_pair:
  assumes "65536 \<le> c" and "c \<le> 1114111"
  shows "read_u_escape (hex4 (55296 + (c - 65536) div 1024) @
           u_escape (56320 + (c - 65536) mod 1024) @ rest) = Some (c, rest)"
proof -
  define h where "h = 55296 + (c - 65536) div 1024"
  define l where "l = 56320 + (c - 65536) mod 1024"
  have hb: "55296 \<le> h" "h \<le> 56319" using assms by (simp_all add: h_def)
  have lb: "56320 \<le> l" "l \<le> 57343" by (simp_all add: l_def)
  have h: "h < 65536" and l: "l < 65536" using hb lb by simp_all
  have joined: "65536 + (h - 55296) * 1024 + (l - 56320) = c"
    using assms by (simp add: h_def l_def)
  have "read_u_escape (hex4 h @ 92 # 117 # hex4 l @ rest) = Some (c, rest)"
    using hb lb joined
    by (simp add: read_u_escape_def read_hex4_hex4 [OF h] read_hex4_hex4 [OF l]
        is_high_surrogate_def is_low_surrogate_def)
  then show ?thesis by (simp add: h_def l_def u_escape_def)
qed

lemma read_unit_escape:
  assumes "is_code_point c" and "is_high_surrogate c \<longrightarrow> no_low_escape rest"
  shows "read_unit (escape_char c @ rest) = Some (c, rest)"
proof -
  consider (quote) "c = 34" | (backslash) "c = 92" | (nl) "c = 10" | (cr) "c = 13" | (tab) "c = 9"
    | (bs) "c = 8" | (ff) "c = 12"
    | (printable) "32 \<le> c" "c \<le> 126" "c \<noteq> 34" "c \<noteq> 92"
    | (bmp) "c < 65536" "c < 32 \<or> 126 < c" "c \<noteq> 10" "c \<noteq> 13" "c \<noteq> 9" "c \<noteq> 8" "c \<noteq> 12"
    | (astral) "65536 \<le> c"
    by linarith
  then show ?thesis
  proof cases
    case printable
    then show ?thesis by (simp add: escape_char_def read_unit_def)
  next
    case bmp
    then have e: "escape_char c = 92 # 117 # hex4 c"
      by (auto simp: escape_char_def u_escape_def)
    show ?thesis using read_u_escape_single [OF bmp(1) assms(2)]
      by (simp add: e read_unit_def)
  next
    case astral
    then have e: "escape_char c = 92 # 117 # hex4 (55296 + (c - 65536) div 1024) @
           u_escape (56320 + (c - 65536) mod 1024)"
      by (simp add: escape_char_def u_escape_def)
    have "c \<le> 1114111" using assms(1) by (simp add: is_code_point_def)
    then show ?thesis using read_u_escape_pair [OF astral, of rest]
      by (simp add: e read_unit_def)
  qed (simp_all add: escape_char_def read_unit_def simple_escape_def)
qed

lemma escape_char_not_quote: "escape_char c \<noteq> [] \<and> hd (escape_char c) \<noteq> 34"
  by (simp add: escape_char_def u_escape_def)

lemma no_low_escape_next:
  assumes "is_code_point c" and "\<not> is_low_surrogate c"
  shows "no_low_escape (escape_char c @ rest)"
proof -
  consider (quote) "c = 34" | (backslash) "c = 92" | (nl) "c = 10" | (cr) "c = 13" | (tab) "c = 9"
    | (bs) "c = 8" | (ff) "c = 12"
    | (printable) "32 \<le> c" "c \<le> 126" "c \<noteq> 34" "c \<noteq> 92"
    | (bmp) "c < 65536" "c < 32 \<or> 126 < c" "c \<noteq> 10" "c \<noteq> 13" "c \<noteq> 9" "c \<noteq> 8" "c \<noteq> 12"
    | (astral) "65536 \<le> c"
    by linarith
  then show ?thesis
  proof cases
    case printable
    then show ?thesis by (cases rest) (simp_all add: escape_char_def no_low_escape_def)
  next
    case bmp
    then have e: "escape_char c = 92 # 117 # hex4 c"
      by (auto simp: escape_char_def u_escape_def)
    show ?thesis using assms(2) read_hex4_hex4 [OF bmp(1), of rest]
      by (simp add: e no_low_escape_def)
  next
    case astral
    define h where "h = 55296 + (c - 65536) div 1024"
    have e: "escape_char c = 92 # 117 # hex4 h @ u_escape (56320 + (c - 65536) mod 1024)"
      using astral by (simp add: escape_char_def u_escape_def h_def)
    have "c \<le> 1114111" using assms(1) by (simp add: is_code_point_def)
    then have hb: "h \<le> 56319" using astral by (simp add: h_def)
    then have "h < 65536" by simp
    then have "read_hex4 (hex4 h @ u_escape (56320 + (c - 65536) mod 1024) @ rest)
        = Some (h, u_escape (56320 + (c - 65536) mod 1024) @ rest)"
      by (rule read_hex4_hex4)
    moreover have "\<not> is_low_surrogate h" using hb by (simp add: is_low_surrogate_def)
    ultimately show ?thesis by (simp add: e no_low_escape_def)
  qed (simp_all add: escape_char_def no_low_escape_def)
qed

lemma no_low_escape_quote: "no_low_escape (34 # rest)"
  by (cases rest) (simp_all add: no_low_escape_def)

lemma scan_string_encoded:
  "plain_text s \<Longrightarrow> scan_string (concat (map escape_char s) @ 34 # rest) = Some (s, rest)"
proof (induction s)
  case Nil
  show ?case by (subst scan_string.simps) simp
next
  case (Cons c cs)
  let ?rest = "concat (map escape_char cs) @ 34 # rest"
  have c: "is_code_point c" using Cons.prems by (simp add: plain_text_def)
  have cs: "plain_text cs" using Cons.prems by (cases cs) (simp_all add: plain_text_def)
  have safe: "is_high_surrogate c \<longrightarrow> no_low_escape ?rest"
  proof (cases cs)
    case Nil
    then show ?thesis by (simp add: no_low_escape_quote)
  next
    case (Cons d ds)
    have "is_high_surrogate c \<Longrightarrow> \<not> is_low_surrogate d"
      using Cons.prems Cons by (simp add: plain_text_def)
    moreover have "is_code_point d" using cs Cons by (simp add: plain_text_def)
    ultimately show ?thesis using Cons no_low_escape_next [of d] by simp
  qed
  have unit: "read_unit (escape_char c @ ?rest) = Some (c, ?rest)"
    using read_unit_escape [OF c safe] .
  obtain x xs where x: "escape_char c @ ?rest = x # xs" "x \<noteq> 34"
    using escape_char_not_quote [of c] by (cases "escape_char c") auto
  have "scan_string (escape_char c @ ?rest) = Some (c # cs, rest)"
    using unit Cons.IH [OF cs] x by (subst scan_string.simps) simp
  then show ?case by simp
qed


lemma skip_ws_simps:
  "skip_ws [] = []"
  "skip_ws (c # cs) = (if json_ws c then skip_ws cs else c # cs)"
  by (simp_all add: skip_ws_def)

lemma encode_string_unfold: "encode_string s = 34 # (concat (map escape_char s) @ [34])"
  by (simp add: encode_string_def)

lemma read_member_dumped:
  assumes "plain_text k" and "plain_text v"
  shows "read_member (encode_string k @ [58, 32] @ encode_string v @ rest)
           = Some ((k, v), skip_ws rest)"
proof -
  have k: "scan_string (concat (map escape_char k) @ 34 # ([58, 32] @ encode_string v @ rest))
      = Some (k, [58, 32] @ encode_string v @ rest)"
    using assms(1) by (rule scan_string_encoded)
  have v: "scan_string (concat (map escape_char v) @ 34 # rest) = Some (v, rest)"
    using assms(2) by (rule scan_string_encoded)
  show ?thesis
    using k v by (simp add: read_member_def encode_string_def skip_ws_simps json_ws_def)
qed

lemma read_members_dumped:
  assumes "kvs \<noteq> []" and "\<forall>kv \<in> set kvs. plain_text (fst kv) \<and> plain_text (snd kv)"
  shows "read_members (skip_ws (dump_members kvs @ 125 # rest)) = Some (kvs, rest)"
  using assms
proof (induction kvs rule: dump_members.induct)
  case 1
  then show ?case by simp
next
  case (2 k v)
  have "read_member (encode_string k @ [58, 32] @ encode_string v @ ([10] @ 125 # rest))
      = Some ((k, v), skip_ws ([10] @ 125 # rest))"
    using 2 by (intro read_member_dumped) simp_all
  then have "read_members (encode_string k @ [58, 32] @ encode_string v @ [10] @ 125 # rest)
      = Some ([(k, v)], rest)"
    by (subst read_members.simps) (simp add: skip_ws_simps json_ws_def)
  then show ?case by (simp add: skip_ws_simps json_ws_def encode_string_def)
next
  case (3 k v p ps)
  let ?more = "dump_members (p # ps) @ 125 # rest"
  have IH: "read_members (skip_ws ?more) = Some (p # ps, rest)" using 3 by simp
  have "read_member (encode_string k @ [58, 32] @ encode_string v @ (44 # ?more))
      = Some ((k, v), skip_ws (44 # ?more))"
    using 3 by (intro read_member_dumped) simp_all
  then have "read_members (encode_string k @ [58, 32] @ encode_string v @ 44 # ?more)
      = Some ((k, v) # p # ps, rest)"
    using IH by (subst read_members.simps) (simp add: skip_ws_simps json_ws_def)
  then show ?case by (simp add: skip_ws_simps json_ws_def encode_string_def)
qed

lemma read_object_dumped:
  assumes "\<forall>kv \<in> set kvs. plain_text (fst kv) \<and> plain_text (snd kv)"
  shows "read_object (dump_snapshot kvs) = Some (kvs, [])"
proof (cases kvs)
  case Nil
  then show ?thesis by (simp add: read_object_def dump_snapshot_def skip_ws_simps json_ws_def)
next
  case (Cons p ps)
  then have ne: "kvs \<noteq> []" by simp
  have m: "read_members (skip_ws (dump_members kvs @ [125])) = Some (kvs, [])"
    using read_members_dumped [OF ne assms, of "[]"] by simp
  then obtain c r where c: "skip_ws (dump_members kvs @ [125]) = c # r"
    by (cases "skip_ws (dump_members kvs @ [125])")
      (simp_all add: read_members.simps read_member_def)
  have "c \<noteq> 125"
  proof
    assume "c = 125"
    then have "read_member (c # r) = None" by (simp add: read_member_def)
    then show False using m c by (simp add: read_members.simps)
  qed
  then show ?thesis using m c
    by (simp add: read_object_def dump_snapshot_def skip_ws_simps json_ws_def)
qed

lemma update_fresh: "k \<notin> fst ` set al \<Longrightarrow> AList.update k v al = al @ [(k, v)]"
  by (induction al) auto

lemma fold_update_distinct:
  "distinct (map fst (acc @ kvs)) \<Longrightarrow>
     fold (\<lambda>kv. AList.update (fst kv) (snd kv)) kvs acc = acc @ kvs"
proof (induction kvs arbitrary: acc)
  case Nil
  then show ?case by simp
next
  case (Cons p ps)
  have "fst p \<notin> fst ` set acc" using Cons.prems by auto
  then have "AList.update (fst p) (snd p) acc = acc @ [p]" by (simp add: update_fresh)
  moreover have "distinct (map fst ((acc @ [p]) @ ps))" using Cons.prems by simp
  ultimately show ?case using Cons.IH [of "acc @ [p]"] by simp
qed

lemma load_snapshot_dumped:
  assumes "distinct (map fst kvs)"
      and "\<forall>kv \<in> set kvs. plain_text (fst kv) \<and> plain_text (snd kv)"
  shows "load_snapshot (dump_snapshot kvs) = Some kvs"
  using read_object_dumped [OF assms(2)] fold_update_distinct [of "[]" kvs] assms(1)
  by (simp add: load_snapshot_def skip_ws_simps)


lemma scan_string_Nil: "scan_string [] = None"
  by (simp add: scan_string.simps)

lemma scan_string_Cons:
  "scan_string (c # cs) =
     (if c = 34 then Some ([], cs)
      else
        (case read_unit (c # cs) of
           None \<Rightarrow> None
         | Some (ch, rest) \<Rightarrow>
             (case scan_string rest of
                None \<Rightarrow> None
              | Some (t, r) \<Rightarrow> Some (ch # t, r))))"
  by (subst scan_string.simps) simp

lemma flat_members_snapshot:
  "flat_members (map (\<lambda>kv. (fst kv, JStr (snd kv))) kvs) = Some kvs"
  by (induction kvs) auto

lemmas json_defs =
  json_env_def dump_strings_def load_strings_def snapshot_of_def load_snapshot_def
  read_object_def read_member_def read_members.simps skip_ws_simps json_ws_def
  scan_string_Nil scan_string_Cons read_unit_def read_u_escape_def simple_escape_def
  hex_value_def is_high_surrogate_def is_low_surrogate_def
  dump_snapshot_def encode_string_def escape_char_def u_escape_def hex4_def hex_digit_def
  grin_pair_def grin_def load_metadata_def save_metadata_def mkdir_def metadata_file_def
  fresh_disk_def ustr_def

text \<open>
  Claim C8, as amended. Let the \<open>json\<close> module of the environment be the one modelled
  above: \<open>json.dump(_, indent=2)\<close> writes a dict of strings as \<open>dump_snapshot\<close> does, and
  \<open>json.load\<close> returns the dict that \<open>load_snapshot\<close> reads. Then \<open>save_metadata\<close>
  followed by \<open>load_metadata\<close> returns the snapshot that was saved, with the same pairs
  in the same order, for every dict from strings to strings in which no string holds a
  high surrogate immediately followed by a low surrogate. A dict has distinct keys and a
  \<open>str\<close> holds code points up to \<open>0x10FFFF\<close>, so the condition on surrogates is the only
  restriction. (As stated the claim covers every dict of strings.)
\<close>

theorem save_then_load:
  assumes dump: "json_dump E (snapshot_of kvs) = dump_snapshot kvs"
      and load: "\<And>txt m. load_snapshot txt = Some m \<Longrightarrow> json_load E txt = Inr (snapshot_of m)"
      and keys: "distinct (map fst kvs)"
      and strs: "\<forall>kv \<in> set kvs. plain_text (fst kv) \<and> plain_text (snd kv)"
  shows "load_metadata E (save_metadata E (snapshot_of kvs) w) = Inr (snapshot_of kvs)"
proof -
  have "load_snapshot (dump_snapshot kvs) = Some kvs"
    using keys strs by (rule load_snapshot_dumped)
  then have "json_load E (json_dump E (snapshot_of kvs)) = Inr (snapshot_of kvs)"
    using dump load by simp
  then show ?thesis by (simp add: load_metadata_def save_metadata_def mkdir_def)
qed

theorem save_then_load_witness:
  "load_metadata json_env
     (save_metadata json_env
        (snapshot_of [(ustr ''a.csv'', ustr ''2021-01-01''), (ustr ''caf'' @ [233], 34 # grin)])
        fresh_disk)
     = Inr (snapshot_of [(ustr ''a.csv'', ustr ''2021-01-01''), (ustr ''caf'' @ [233], 34 # grin)])"
proof -
  let ?kvs = "[(ustr ''a.csv'', ustr ''2021-01-01''), (ustr ''caf'' @ [233], 34 # grin)]"
  have dump: "json_dump json_env (snapshot_of ?kvs) = dump_snapshot ?kvs"
    by (simp add: json_env_def dump_strings_def snapshot_of_def)
  have load: "load_snapshot t = Some m \<Longrightarrow> json_load json_env t = Inr (snapshot_of m)"
    for t m
    by (simp add: json_env_def load_strings_def)
  have keys: "distinct (map fst ?kvs)" by (simp add: ustr_def)
  have strs: "\<forall>kv \<in> set ?kvs. plain_text (fst kv) \<and> plain_text (snd kv)"
    by (simp add: plain_text_def is_code_point_def is_high_surrogate_def is_low_surrogate_def
        ustr_def grin_def)
  show ?thesis using save_then_load [OF dump load keys strs, of fresh_disk] .
qed

text \<open>
  The claim as stated fails for a value that holds the two surrogates of U+1F600 as two
  code points: \<open>json.dump\<close> writes one escape for each, and \<open>json.load\<close> joins the two
  escapes into the one code point U+1F600, so the snapshot read back is not the one saved.
\<close>

theorem surrogate_pair_counterexample:
  "load_metadata json_env
     (save_metadata json_env (snapshot_of [(ustr ''a.csv'', grin_pair)]) fresh_disk)
     = Inr (snapshot_of [(ustr ''a.csv'', grin)]) \<and>
   snapshot_of [(ustr ''a.csv'', grin)] \<noteq> snapshot_of [(ustr ''a.csv'', grin_pair)] \<and>
   \<not> py_eq (snapshot_of [(ustr ''a.csv'', grin)]) (snapshot_of [(ustr ''a.csv'', grin_pair)])"
  by (simp add: json_defs)

text \<open>
  Claim C9. \<open>load_metadata\<close> returns the empty dict when \<open>metadata.json\<close> does not exist.
  When the file exists and \<open>json.load\<close> rejects its text, \<open>load_metadata\<close> raises that
  error, and so does \<open>main\<close>, which stops right after creating the directory: nothing
  catches the error or replaces it by an empty dict.
\<close>

theorem load_missing_or_malformed:
  "(files w metadata_file = None \<longrightarrow> load_metadata E w = Inr (JObj [])) \<and>
   (files w metadata_file = Some txt \<and> json_load E txt = Inl e \<longrightarrow>
      load_metadata E w = Inl e \<and> main E w = (Inl e, mkdir w))"
  by (simp add: load_metadata_def main_def mkdir_def)

theorem load_missing_or_malformed_witness:
  "files fresh_disk metadata_file = None \<and>
   load_metadata demo_env fresh_disk = Inr (JObj []) \<and>
   files (disk_with metadata_file (ustr ''{oops'')) metadata_file = Some (ustr ''{oops'') \<and>
   json_load demo_env (ustr ''{oops'') = Inl JSONDecodeError \<and>
   load_metadata demo_env (disk_with metadata_file (ustr ''{oops'')) = Inl JSONDecodeError \<and>
   fst (main demo_env (disk_with metadata_file (ustr ''{oops''))) = Inl JSONDecodeError"
proof -
  have h1: "files fresh_disk metadata_file = None" by (simp add: fresh_disk_def)
  have h2: "files (disk_with metadata_file (ustr ''{oops'')) metadata_file = Some (ustr ''{oops'')"
    by (simp add: disk_with_def)
  have h3: "json_load demo_env (ustr ''{oops'') = Inl JSONDecodeError" by (simp add: run_defs)
  show ?thesis
    using load_missing_or_malformed [of fresh_disk demo_env "ustr ''{oops''" JSONDecodeError]
      load_missing_or_malformed [of "disk_with metadata_file (ustr ''{oops'')" demo_env
        "ustr ''{oops''" JSONDecodeError]
      h1 h2 h3
    by simp
qed

subsection \<open>Catalog filter\<close>

lemma str_contains_sublist: "str_contains needle hay = sublist needle hay"
  by (induction hay) (auto simp: sublist_Cons_right)

lemma list_ex_py_eq_str: "list_ex (py_eq (JStr k)) xs = (JStr k \<in> set xs)"
  by (induction xs) auto

lemma is_hospital_typed: "theme_iterable d \<Longrightarrow> is_hospital d = Inr (hospital_theme d)"
proof (cases d)
  case (JObj kvs)
  assume ok: "theme_iterable d"
  show ?thesis
  proof (cases "map_of kvs (ustr ''theme'')")
    case None
    then show ?thesis using JObj by (simp add: is_hospital_def hospital_theme_def ustr_def)
  next
    case (Some t)
    have key: "(\<exists>y. map_of m k = Some y) = (k \<in> fst ` set m)"
      for m :: "(pystr \<times> json) list" and k
      using map_of_eq_None_iff [of m k] by auto
    show ?thesis using JObj Some ok
      by (cases t)
        (simp_all add: is_hospital_def hospital_theme_def theme_iterable_def
          str_contains_sublist list_ex_py_eq_str key)
  qed
qed (simp_all add: theme_iterable_def)

lemma filter_hospitals_typed:
  "\<forall>d \<in> set ds. theme_iterable d \<Longrightarrow> filter_hospitals ds = Inr (filter hospital_theme ds)"
  by (induction ds) (simp_all add: is_hospital_typed)

text \<open>
  Claim C5, as amended. For every catalog response that is an array of descriptors
  (dicts whose \<open>theme\<close>, when present, is a string, a list or a dict),
  \<open>fetch_hospital_datasets\<close> returns, in order, exactly the descriptors whose theme
  contains \<open>Hospitals\<close> in the sense of Python's \<open>in\<close>: as a substring of a string,
  as an element of a list, as a key of a dict. A descriptor without \<open>theme\<close> is left
  out and raises nothing. (As stated the claim includes a theme \<open>Hospitals - General\<close>
  also when the theme is a list of category strings; a list matches only when one of
  its elements is exactly \<open>Hospitals\<close>.)
\<close>

theorem fetch_filters_by_theme:
  assumes "get_catalog E = Inr (JArr ds)" and "\<forall>d \<in> set ds. theme_iterable d"
  shows "fetch_hospital_datasets E = Inr (filter hospital_theme ds)"
  using assms by (simp add: fetch_hospital_datasets_def filter_hospitals_typed)

theorem fetch_filters_by_theme_witness:
  "get_catalog (demo_env\<lparr>get_catalog := Inr (JArr theme_catalog)\<rparr>) = Inr (JArr theme_catalog) \<and>
   list_all theme_iterable theme_catalog \<and>
   filter hospital_theme theme_catalog =
     [themed (JStr (ustr ''Hospitals - General'')), themed (JArr [JStr (ustr ''Hospitals'')])] \<and>
   fetch_hospital_datasets (demo_env\<lparr>get_catalog := Inr (JArr theme_catalog)\<rparr>) =
     Inr [themed (JStr (ustr ''Hospitals - General'')), themed (JArr [JStr (ustr ''Hospitals'')])]"
proof -
  let ?E = "demo_env\<lparr>get_catalog := Inr (JArr theme_catalog)\<rparr>"
  have h1: "get_catalog ?E = Inr (JArr theme_catalog)" by simp
  have h2: "\<forall>d \<in> set theme_catalog. theme_iterable d"
    by (simp add: theme_iterable_def run_defs)
  have h3: "filter hospital_theme theme_catalog =
     [themed (JStr (ustr ''Hospitals - General'')), themed (JArr [JStr (ustr ''Hospitals'')])]"
    by (simp add: hospital_theme_def str_contains_sublist [symmetric] run_defs)
  show ?thesis using fetch_filters_by_theme [OF h1 h2] h1 h2 h3 by (simp add: list_all_iff)
qed

text \<open>
  The claim as stated fails for the list theme \<open>["Hospitals - General"]\<close>: the
  descriptor is left out, whereas the same text as a string theme is kept.
\<close>

theorem list_theme_counterexample:
  "fetch_hospital_datasets
     (demo_env\<lparr>get_catalog := Inr (JArr [themed (JArr [JStr (ustr ''Hospitals - General'')])])\<rparr>)
     = Inr [] \<and>
   fetch_hospital_datasets
     (demo_env\<lparr>get_catalog := Inr (JArr [themed (JStr (ustr ''Hospitals - General''))])\<rparr>)
     = Inr [themed (JStr (ustr ''Hospitals - General''))]"
  by (simp add: run_defs)

subsection \<open>Failures of single items\<close>

text \<open>
  Claim C2, as amended. Take a run whose prior snapshot loads as a dict, whose catalog
  request succeeds and whose filtered descriptors all have a title and a derivable
  filename. Then the run completes: \<open>main\<close> returns normally, and what it leaves is
  the disk the workers left with the merged snapshot saved on top. Every descriptor is
  processed, with the result it would have alone, and every descriptor that does not
  take the skip branch is downloaded, in order, whatever happened to the others. The
  merged snapshot records every pair a worker returned (the last one for a filename
  stays) and holds the prior value for every other filename. The files the workers
  leave are the files the run started with, with the write of each descriptor applied
  in order: a descriptor whose download fails writes nothing, and what every other
  descriptor writes does not depend on it. A descriptor whose
  download or parse fails, or whose write fails, yields \<open>None\<close>. So for every
  filename for which no descriptor of the run yields a pair, in particular the
  filename of a failed item that no other descriptor of the run shares, the saved
  snapshot holds what the prior snapshot held, or nothing. (As stated the claim lets
  the entry keep its prior value in every run; a second descriptor with the same
  filename that succeeds overwrites it.)
\<close>

theorem item_failure_is_contained:
  assumes "load_metadata E (mkdir w) = Inr (JObj snapshot)"
      and "fetch_hospital_datasets E = Inr datasets"
      and "\<forall>d \<in> set datasets. well_formed E d"
  shows
    "main E w =
       (Inr (),
        save_metadata E
          (JObj (merge_results (item_results E datasets (JObj snapshot) (mkdir w)) snapshot))
          (snd (run_pool E datasets (JObj snapshot) (mkdir w)))) \<and>
     fst (run_pool E datasets (JObj snapshot) (mkdir w))
       = item_results E datasets (JObj snapshot) (mkdir w) \<and>
     fetched (snd (main E w))
       = fetched w @ concat (map (attempted_url E (JObj snapshot)) datasets) \<and>
     saved (snd (main E w))
       = saved w @ [JObj (merge_results (item_results E datasets (JObj snapshot) (mkdir w)) snapshot)] \<and>
     files (snd (main E w)) metadata_file
       = Some (json_dump E
           (JObj (merge_results (item_results E datasets (JObj snapshot) (mkdir w)) snapshot))) \<and>
     (\<forall>n. map_of (merge_results (item_results E datasets (JObj snapshot) (mkdir w)) snapshot) n =
        (case map_of (rev (successes (item_results E datasets (JObj snapshot) (mkdir w)))) n of
           Some m \<Rightarrow> Some m
         | None \<Rightarrow> map_of snapshot n)) \<and>
     (\<forall>d \<in> set datasets. \<forall>u. download_url_of d = Inr (JStr u) \<longrightarrow> isl (pd_read_csv E u) \<longrightarrow>
        fst (download_and_process E d (JObj snapshot) (mkdir w)) = Inr None) \<and>
     (\<forall>d \<in> set datasets. \<forall>n. derived_name E d = Inr n \<longrightarrow>
        (n = [] \<or> n = ustr ''..'' \<or> disk_fault E n \<noteq> None) \<longrightarrow>
        fst (download_and_process E d (JObj snapshot) (mkdir w)) = Inr None) \<and>
     (\<forall>n. (\<forall>d \<in> set datasets. derived_name E d = Inr n \<longrightarrow>
              fst (download_and_process E d (JObj snapshot) (mkdir w)) = Inr None) \<longrightarrow>
          map_of (merge_results (item_results E datasets (JObj snapshot) (mkdir w)) snapshot) n
            = map_of snapshot n) \<and>
     files (snd (run_pool E datasets (JObj snapshot) (mkdir w)))
       = pool_files E datasets (JObj snapshot) (files w) \<and>
     files (snd (main E w))
       = (pool_files E datasets (JObj snapshot) (files w))
           (metadata_file \<mapsto> json_dump E
              (JObj (merge_results (item_results E datasets (JObj snapshot) (mkdir w)) snapshot))) \<and>
     (\<forall>d \<in> set datasets. \<forall>u. download_url_of d = Inr (JStr u) \<longrightarrow> isl (pd_read_csv E u) \<longrightarrow>
        item_write E (JObj snapshot) d = None)"
proof -
  define rs where "rs = item_results E datasets (JObj snapshot) (mkdir w)"
  define final where "final = merge_results rs snapshot"
  let ?pool = "run_pool E datasets (JObj snapshot) (mkdir w)"
  have rs: "fst ?pool = rs"
    unfolding rs_def item_results_def by (rule run_pool_results)
  have m: "main E w = (Inr (), save_metadata E (JObj final) (snd ?pool))"
    using run_completes(1) [OF assms] rs by (simp add: final_def merge_results_def)
  have b: "saved (snd (main E w)) = saved w @ [JObj final]"
    using run_completes(2) [OF assms] rs by (simp add: final_def merge_results_def)
  have c: "files (snd (main E w)) metadata_file = Some (json_dump E (JObj final))"
    using run_completes(3) [OF assms] rs by (simp add: final_def merge_results_def)
  have "fetched (snd ?pool) = fetched (mkdir w) @ concat (map (attempted_url E (JObj snapshot)) datasets)"
    using assms(3) by (rule run_pool_fetched)
  then have g: "fetched (snd (main E w))
       = fetched w @ concat (map (attempted_url E (JObj snapshot)) datasets)"
    using m by (simp add: save_metadata_def mkdir_def)
  have h: "map_of final n =
        (case map_of (rev (successes rs)) n of Some m \<Rightarrow> Some m | None \<Rightarrow> map_of snapshot n)" for n
    by (simp add: final_def merge_results_def map_of_fold_update)
  have d: "\<forall>d \<in> set datasets. \<forall>u. download_url_of d = Inr (JStr u) \<longrightarrow> isl (pd_read_csv E u) \<longrightarrow>
        fst (download_and_process E d (JObj snapshot) (mkdir w)) = Inr None"
    using assms(3) failed_download_no_result by blast
  have e: "\<forall>d \<in> set datasets. \<forall>n. derived_name E d = Inr n \<longrightarrow>
        (n = [] \<or> n = ustr ''..'' \<or> disk_fault E n \<noteq> None) \<longrightarrow>
        fst (download_and_process E d (JObj snapshot) (mkdir w)) = Inr None"
    using assms(3) failed_write_no_result by blast
  have f: "map_of final n = map_of snapshot n"
    if none: "\<forall>d \<in> set datasets. derived_name E d = Inr n \<longrightarrow>
              fst (download_and_process E d (JObj snapshot) (mkdir w)) = Inr None" for n
  proof -
    have "map_of (rev (successes rs)) n = None"
    proof (rule ccontr)
      assume "map_of (rev (successes rs)) n \<noteq> None"
      then obtain v where "map_of (rev (successes rs)) n = Some v" by auto
      then have "(n, v) \<in> set (successes rs)" using map_of_SomeD by fastforce
      then have "Inr (Some (n, v)) \<in> set rs" by (simp add: successes_mem)
      then obtain d where d: "d \<in> set datasets"
        "fst (download_and_process E d (JObj snapshot) (mkdir w)) = Inr (Some (n, v))"
        by (auto simp: rs_def item_results_def)
      then have "derived_name E d = Inr n" using process_pair by blast
      then show False using none d by simp
    qed
    then show ?thesis using h [of n] by simp
  qed
  have i: "files (snd ?pool) = pool_files E datasets (JObj snapshot) (files w)"
    using run_pool_files [of datasets E "mkdir w" snapshot] assms(3) by (simp add: mkdir_def)
  then have j: "files (snd (main E w))
       = (pool_files E datasets (JObj snapshot) (files w))
           (metadata_file \<mapsto> json_dump E (JObj final))"
    using m by (simp add: save_metadata_def mkdir_def)
  have k: "\<forall>d \<in> set datasets. \<forall>u. download_url_of d = Inr (JStr u) \<longrightarrow> isl (pd_read_csv E u) \<longrightarrow>
        item_write E (JObj snapshot) d = None"
    using failed_download_no_write by blast
  have first: "main E w = (Inr (), save_metadata E (JObj final) (snd ?pool)) \<and>
      fst ?pool = rs \<and>
      fetched (snd (main E w)) = fetched w @ concat (map (attempted_url E (JObj snapshot)) datasets) \<and>
      saved (snd (main E w)) = saved w @ [JObj final] \<and>
      files (snd (main E w)) metadata_file = Some (json_dump E (JObj final))"
    using m rs g b c by simp
  have second: "(\<forall>n. map_of final n =
        (case map_of (rev (successes rs)) n of Some m \<Rightarrow> Some m | None \<Rightarrow> map_of snapshot n))"
    using h by simp
  have third: "\<forall>n. (\<forall>d \<in> set datasets. derived_name E d = Inr n \<longrightarrow>
              fst (download_and_process E d (JObj snapshot) (mkdir w)) = Inr None) \<longrightarrow>
          map_of final n = map_of snapshot n"
    using f by blast
  show ?thesis
    unfolding rs_def [symmetric] final_def [symmetric]
    using first second d e third i j k by (intro conjI) blast+
qed

theorem item_failure_is_contained_witness:
  "load_metadata (a_down_env (two_file_catalog (ustr ''2021-02-01'') (ustr ''2021-02-01'')))
      (mkdir (disk_after (snapshot_a (ustr ''2021-01-01''))))
     = Inr (JObj [(ustr ''a.csv'', JStr (ustr ''2021-01-01''))]) \<and>
   fetch_hospital_datasets (a_down_env (two_file_catalog (ustr ''2021-02-01'') (ustr ''2021-02-01'')))
     = Inr [descriptor (ustr ''A'') (ustr ''2021-02-01'') url_a,
            descriptor (ustr ''B'') (ustr ''2021-02-01'') url_b] \<and>
   list_all (well_formed (a_down_env (two_file_catalog (ustr ''2021-02-01'') (ustr ''2021-02-01''))))
     [descriptor (ustr ''A'') (ustr ''2021-02-01'') url_a,
      descriptor (ustr ''B'') (ustr ''2021-02-01'') url_b] \<and>
   item_results (a_down_env (two_file_catalog (ustr ''2021-02-01'') (ustr ''2021-02-01'')))
          [descriptor (ustr ''A'') (ustr ''2021-02-01'') url_a,
           descriptor (ustr ''B'') (ustr ''2021-02-01'') url_b]
          (snapshot_a (ustr ''2021-01-01''))
          (mkdir (disk_after (snapshot_a (ustr ''2021-01-01''))))
     = [Inr None, Inr (Some (ustr ''b.csv'', JStr (ustr ''2021-02-01'')))] \<and>
   fst (main (a_down_env (two_file_catalog (ustr ''2021-02-01'') (ustr ''2021-02-01'')))
          (disk_after (snapshot_a (ustr ''2021-01-01'')))) = Inr () \<and>
   saved (snd (main (a_down_env (two_file_catalog (ustr ''2021-02-01'') (ustr ''2021-02-01'')))
          (disk_after (snapshot_a (ustr ''2021-01-01'')))))
     = [snapshot_ab (ustr ''2021-01-01'') (ustr ''2021-02-01'')] \<and>
   fetched (snd (main (a_down_env (two_file_catalog (ustr ''2021-02-01'') (ustr ''2021-02-01'')))
          (disk_after (snapshot_a (ustr ''2021-01-01'')))))
     = [url_a, url_b] \<and>
   files (snd (main (a_down_env (two_file_catalog (ustr ''2021-02-01'') (ustr ''2021-02-01'')))
          (disk_after (snapshot_a (ustr ''2021-01-01''))))) (ustr ''b.csv'')
     = Some normalised_a_text \<and>
   files (snd (main (a_down_env (two_file_catalog (ustr ''2021-02-01'') (ustr ''2021-02-01'')))
          (disk_after (snapshot_a (ustr ''2021-01-01''))))) (ustr ''a.csv'')
     = None \<and>
   files (snd (main (a_down_env (two_file_catalog (ustr ''2021-02-01'') (ustr ''2021-02-01'')))
          (disk_after (snapshot_a (ustr ''2021-01-01''))))) metadata_file
     = Some (dump_flat (snapshot_ab (ustr ''2021-01-01'') (ustr ''2021-02-01'')))"
proof -
  let ?E = "a_down_env (two_file_catalog (ustr ''2021-02-01'') (ustr ''2021-02-01''))"
  let ?w = "disk_after (snapshot_a (ustr ''2021-01-01''))"
  let ?ds = "[descriptor (ustr ''A'') (ustr ''2021-02-01'') url_a,
              descriptor (ustr ''B'') (ustr ''2021-02-01'') url_b]"
  let ?snap = "[(ustr ''a.csv'', JStr (ustr ''2021-01-01''))]"
  have h1: "load_metadata ?E (mkdir ?w) = Inr (JObj ?snap)" by (simp add: run_defs)
  have h2: "fetch_hospital_datasets ?E = Inr ?ds" by (simp add: run_defs)
  have h3: "\<forall>d \<in> set ?ds. well_formed ?E d" by (simp add: run_defs)
  have items: "item_results ?E ?ds (JObj ?snap) (mkdir ?w)
     = [Inr None, Inr (Some (ustr ''b.csv'', JStr (ustr ''2021-02-01'')))]"
    by (simp add: item_results_def run_defs)
  have r1: "fst (main ?E ?w) = Inr ()"
    using conjunct1 [OF item_failure_is_contained [OF h1 h2 h3]] by simp
  have r2: "saved (snd (main ?E ?w)) = [snapshot_ab (ustr ''2021-01-01'') (ustr ''2021-02-01'')]"
    by (simp add: run_defs)
  have r3: "fetched (snd (main ?E ?w)) = [url_a, url_b]"
    by (simp add: run_defs)
  have r4: "files (snd (main ?E ?w)) metadata_file
     = Some (dump_flat (snapshot_ab (ustr ''2021-01-01'') (ustr ''2021-02-01'')))"
    by (simp add: run_defs)
  have r5: "files (snd (main ?E ?w)) (ustr ''b.csv'') = Some normalised_a_text"
    by (simp add: run_defs)
  have r6: "files (snd (main ?E ?w)) (ustr ''a.csv'') = None"
    by (simp add: run_defs)
  show ?thesis using h1 h2 h3 items r1 r2 r3 r4 r5 r6 by (simp add: list_all_iff snapshot_a_def)
qed

text \<open>
  The claim as stated fails when two descriptors derive the same filename: the
  download of the first fails and returns \<open>None\<close>, the second succeeds, and the entry
  for \<open>a.csv\<close> goes from \<open>2021-01-01\<close> to \<open>2021-02-01\<close>.
\<close>

theorem same_name_counterexample:
  "derived_name (a_down_env (same_name_catalog (ustr ''2021-02-01'') (ustr ''2021-02-01'')))
      (descriptor (ustr ''A'') (ustr ''2021-02-01'') url_a) = Inr (ustr ''a.csv'') \<and>
   pd_read_csv (a_down_env (same_name_catalog (ustr ''2021-02-01'') (ustr ''2021-02-01''))) url_a
     = Inl RequestException \<and>
   load_metadata (a_down_env (same_name_catalog (ustr ''2021-02-01'') (ustr ''2021-02-01'')))
      (disk_after (snapshot_a (ustr ''2021-01-01''))) = Inr (snapshot_a (ustr ''2021-01-01'')) \<and>
   fst (run_pool (a_down_env (same_name_catalog (ustr ''2021-02-01'') (ustr ''2021-02-01'')))
          [descriptor (ustr ''A'') (ustr ''2021-02-01'') url_a,
           descriptor (ustr ''A mirror'') (ustr ''2021-02-01'') url_a_mirror]
          (snapshot_a (ustr ''2021-01-01''))
          (mkdir (disk_after (snapshot_a (ustr ''2021-01-01'')))))
     = [Inr None, Inr (Some (ustr ''a.csv'', JStr (ustr ''2021-02-01'')))] \<and>
   fst (main (a_down_env (same_name_catalog (ustr ''2021-02-01'') (ustr ''2021-02-01'')))
          (disk_after (snapshot_a (ustr ''2021-01-01'')))) = Inr () \<and>
   saved (snd (main (a_down_env (same_name_catalog (ustr ''2021-02-01'') (ustr ''2021-02-01'')))
          (disk_after (snapshot_a (ustr ''2021-01-01'')))))
     = [snapshot_a (ustr ''2021-02-01'')]"
  by (simp add: run_defs)

subsection \<open>Running twice\<close>











end
